theory Spec2Isabelle
  imports Main "HOL-Library.Sublist"
begin

section \<open>Text of the chat log\<close>

text \<open>
  The parser of \<^verbatim>\<open>textParser2.py\<close> reads the whole export into one Python string
  and works on it with regular expressions and string methods. A document is modelled
  as a \<^typ>\<open>string\<close>, one \<^typ>\<open>char\<close> per code point; the model therefore covers the
  documents whose code points are below 256. In that range the decimal digits that
  \<^verbatim>\<open>\d\<close> accepts are \<^verbatim>\<open>0\<close> to \<^verbatim>\<open>9\<close>, and the white space of \<^verbatim>\<open>\s\<close> and
  \<^verbatim>\<open>str.strip\<close> is the set listed in \<open>isspace\<close>.
\<close>

definition isspace :: "char \<Rightarrow> bool" where
  "isspace c = (c \<in> set [CHR 0x09, CHR 0x0A, CHR 0x0B, CHR 0x0C, CHR 0x0D,
     CHR 0x1C, CHR 0x1D, CHR 0x1E, CHR 0x1F, CHR 0x20, CHR 0x85, CHR 0xA0])"

definition isdigit :: "char \<Rightarrow> bool" where
  "isdigit c = (c \<in> set ''0123456789'')"

text \<open>\<^verbatim>\<open>s.strip()\<close>: white space removed at both ends.\<close>

definition strip :: "string \<Rightarrow> string" where
  "strip s = rev (dropWhile isspace (rev (dropWhile isspace s)))"

text \<open>
  \<^verbatim>\<open>s.split(sep)\<close> for a non-empty separator: the occurrences of \<open>sep\<close> are taken from
  left to right without overlap; \<open>acc\<close> is the piece read so far. (Python raises on an
  empty separator; both separators of the source are non-empty constants.)
\<close>

fun split_acc :: "string \<Rightarrow> string \<Rightarrow> string \<Rightarrow> string list" where
  "split_acc sep acc [] = [acc]"
| "split_acc sep acc (x # xs) =
     (if take (length sep) (x # xs) = sep
      then acc # split_acc sep [] (drop (length sep - 1) xs)
      else split_acc sep (acc @ [x]) xs)"

definition split :: "string \<Rightarrow> string \<Rightarrow> string list" where
  "split sep s = split_acc sep [] s"

text \<open>\<^verbatim>\<open>sep.join(parts)\<close>.\<close>

fun join :: "string \<Rightarrow> string list \<Rightarrow> string" where
  "join sep [] = []"
| "join sep [p] = p"
| "join sep (p # q # ps) = p @ sep @ join sep (q # ps)"

section \<open>Regular expressions\<close>

text \<open>
  The constructs that the patterns of the source use: literals, one character of a class,
  the greedy repetitions \<^verbatim>\<open>*\<close> and \<^verbatim>\<open>+\<close> and the lazy \<^verbatim>\<open>*?\<close> of a class, sequence,
  alternation, a capturing group, the look-ahead \<^verbatim>\<open>(?=...)\<close> and \<^verbatim>\<open>\Z\<close>.
  \<open>AnyChar\<close> is the dot under \<^verbatim>\<open>re.DOTALL\<close>, \<open>NotNL\<close> is the dot without that flag
  and the class \<^verbatim>\<open>[^\n]\<close>.
\<close>

datatype cls = AnyChar | NotNL | Digit | Space | OneOf string

fun cls_mem :: "cls \<Rightarrow> char \<Rightarrow> bool" where
  "cls_mem AnyChar c = True"
| "cls_mem NotNL c = (c \<noteq> CHR ''\<newline>'')"
| "cls_mem Digit c = isdigit c"
| "cls_mem Space c = isspace c"
| "cls_mem (OneOf cs) c = (c \<in> set cs)"

datatype rx = Lit string | One cls | Star cls | Plus cls | LazyStar cls
  | Cat "rx list" | Alt rx rx | Grp rx | Ahead rx | EndZ

text \<open>
  The remainders of the input after zero or more characters satisfying \<open>p\<close>, the
  shortest repetition first: the order in which a lazy repetition tries them. A greedy
  repetition tries them in the reverse order.
\<close>

fun lazy_rests :: "(char \<Rightarrow> bool) \<Rightarrow> string \<Rightarrow> string list" where
  "lazy_rests p [] = [[]]"
| "lazy_rests p (x # xs) = (x # xs) # (if p x then lazy_rests p xs else [])"

text \<open>
  A matcher state is the rest of the input and the groups captured so far. \<open>ms r st\<close>
  lists every way in which \<open>r\<close> matches a prefix of the rest, in the order in which
  the backtracking matcher of Python tries them, so that its head is the match Python
  reports. Groups are recorded when they close; no pattern of the source nests groups or
  puts one under a repetition, an alternation or a look-ahead, so this is Python's
  numbering.
\<close>

type_synonym mstate = "string \<times> string list"

fun ms :: "rx \<Rightarrow> mstate \<Rightarrow> mstate list" where
  "ms (Lit l) (s, g) = (if take (length l) s = l then [(drop (length l) s, g)] else [])"
| "ms (One c) (s, g) = (case s of [] \<Rightarrow> [] | x # xs \<Rightarrow> if cls_mem c x then [(xs, g)] else [])"
| "ms (Star c) (s, g) = map (\<lambda>t. (t, g)) (rev (lazy_rests (cls_mem c) s))"
| "ms (Plus c) (s, g) = map (\<lambda>t. (t, g)) (butlast (rev (lazy_rests (cls_mem c) s)))"
| "ms (LazyStar c) (s, g) = map (\<lambda>t. (t, g)) (lazy_rests (cls_mem c) s)"
| "ms (Cat []) st = [st]"
| "ms (Cat (r # rs)) st = concat (map (ms (Cat rs)) (ms r st))"
| "ms (Alt a b) st = ms a st @ ms b st"
| "ms (Grp r) (s, g) =
     map (\<lambda>(s', g'). (s', g' @ [take (length s - length s') s])) (ms r (s, g))"
| "ms (Ahead r) st = (if ms r st = [] then [] else [st])"
| "ms EndZ (s, g) = (if s = [] then [(s, g)] else [])"

text \<open>
  A match object: \<^verbatim>\<open>start()\<close>, \<^verbatim>\<open>end()\<close> and \<^verbatim>\<open>groups()\<close>. \<open>match_at\<close> matches at
  the beginning of its input and gives the length of the match and the groups.
\<close>

record rmatch =
  m_start :: nat
  m_end :: nat
  m_groups :: "string list"

definition match_at :: "rx \<Rightarrow> string \<Rightarrow> (nat \<times> string list) option" where
  "match_at r s =
     (case ms r (s, []) of [] \<Rightarrow> None | (s', g) # _ \<Rightarrow> Some (length s - length s', g))"

definition shift :: "nat \<Rightarrow> rmatch \<Rightarrow> rmatch" where
  "shift k m = m\<lparr>m_start := m_start m + k, m_end := m_end m + k\<rparr>"

text \<open>\<^verbatim>\<open>re.search\<close>: the match at the leftmost position that has one.\<close>

fun search :: "rx \<Rightarrow> string \<Rightarrow> rmatch option" where
  "search r [] =
     (case match_at r [] of None \<Rightarrow> None
      | Some (n, g) \<Rightarrow> Some \<lparr>m_start = 0, m_end = n, m_groups = g\<rparr>)"
| "search r (x # xs) =
     (case match_at r (x # xs) of
        Some (n, g) \<Rightarrow> Some \<lparr>m_start = 0, m_end = n, m_groups = g\<rparr>
      | None \<Rightarrow> map_option (shift 1) (search r xs))"

text \<open>
  \<^verbatim>\<open>re.finditer\<close>: the matches from left to right, each search starting where the
  previous match ended. The positions are counted from the beginning of the string that
  was passed. Every pattern the source iterates or substitutes begins with a literal, so
  no match is empty; the model steps over one character after an empty match.
\<close>

function finditer :: "rx \<Rightarrow> string \<Rightarrow> rmatch list" where
  "finditer r s =
     (case search r s of
        None \<Rightarrow> []
      | Some m \<Rightarrow>
          m # (if s = [] then []
               else map (shift (max 1 (m_end m))) (finditer r (drop (max 1 (m_end m)) s))))"
  by pat_completeness auto
termination
  by (relation "measure (\<lambda>(r, s). length s)") auto

text \<open>
  \<^verbatim>\<open>re.sub(pattern, '', s)\<close>: the text outside the matches that \<open>finditer\<close> would
  report.
\<close>

function sub_empty :: "rx \<Rightarrow> string \<Rightarrow> string" where
  "sub_empty r s =
     (case search r s of
        None \<Rightarrow> s
      | Some m \<Rightarrow>
          take (m_start m) s @
          (if s = [] then []
           else (if m_end m = 0 then take 1 s else []) @ sub_empty r (drop (max 1 (m_end m)) s)))"
  by pat_completeness auto
termination
  by (relation "measure (\<lambda>(r, s). length s)") auto

section \<open>The patterns of the source\<close>

text \<open>\<^verbatim>\<open>==+\nGuild: (.*)\nChannel: (.*)\nTopic: (.*)\n==+\<close>\<close>

definition header_pattern :: rx where
  "header_pattern = Cat [Lit ''='', Plus (OneOf ''=''),
     Lit ''\<newline>Guild: '', Grp (Star NotNL),
     Lit ''\<newline>Channel: '', Grp (Star NotNL),
     Lit ''\<newline>Topic: '', Grp (Star NotNL),
     Lit ''\<newline>='', Plus (OneOf ''='')]"

text \<open>\<^verbatim>\<open>\d+/\d+/\d+ \d+:\d+ [AP]M\<close>, the inside of the timestamp bracket.\<close>

definition stamp :: rx where
  "stamp = Cat [Plus Digit, Lit ''/'', Plus Digit, Lit ''/'', Plus Digit, Lit '' '',
     Plus Digit, Lit '':'', Plus Digit, Lit '' '', One (OneOf ''AP''), Lit ''M'']"

text \<open>\<^verbatim>\<open>\[\d+/\d+/\d+ \d+:\d+ [AP]M\]\<close>, the bracketed timestamp of the look-ahead.\<close>

definition bracket :: rx where
  "bracket = Cat [Lit ''['', stamp, Lit '']'']"

text \<open>
  \<^verbatim>\<open>\[(\d+/\d+/\d+ \d+:\d+ [AP]M)\] ([^\n]+)\n(.*?)(?=\[\d+/\d+/\d+ \d+:\d+ [AP]M\]|\Z)\<close>
  with \<^verbatim>\<open>re.DOTALL\<close>.
\<close>

definition message_pattern :: rx where
  "message_pattern = Cat [Lit ''['', Grp stamp, Lit ''] '', Grp (Plus NotNL), Lit ''\<newline>'',
     Grp (LazyStar AnyChar),
     Ahead (Alt bracket EndZ)]"

text \<open>\<^verbatim>\<open>{Attachments}\s+(https://[^\n]+)\<close>\<close>

definition attachment_pattern :: rx where
  "attachment_pattern =
     Cat [Lit ''{Attachments}'', Plus Space, Grp (Cat [Lit ''https://'', Plus NotNL])]"

text \<open>\<^verbatim>\<open>{Embed}\s+(.*?)(?=\[|\Z)\<close> and \<^verbatim>\<open>{Reactions}\s+(.*?)(?=\[|\Z)\<close> with \<^verbatim>\<open>re.DOTALL\<close>.\<close>

definition section_pattern :: "string \<Rightarrow> rx" where
  "section_pattern marker =
     Cat [Lit marker, Plus Space, Grp (LazyStar AnyChar), Ahead (Alt (Lit ''['') EndZ)]"

text \<open>
  \<^verbatim>\<open>{Attachments}.*?(?=\n\n|\n\[|\Z)\<close> with \<^verbatim>\<open>re.DOTALL\<close>, and the same for the two
  other markers: the pattern of the text that is removed.
\<close>

definition removal_pattern :: "string \<Rightarrow> rx" where
  "removal_pattern marker =
     Cat [Lit marker, LazyStar AnyChar,
          Ahead (Alt (Lit ''\<newline>\<newline>'') (Alt (Lit ''\<newline>['') EndZ))]"

section \<open>Timestamps\<close>

text \<open>
  \<^verbatim>\<open>datetime.strptime(timestamp_str, '%m/%d/%Y %I:%M %p')\<close> comes from the standard
  library. It turns the format into the pattern
  \<^verbatim>\<open>(1[0-2]|0[1-9]|[1-9])/(3[0-1]|[1-2]\d|0[1-9]|[1-9]| [1-9])/(\d\d\d\d)\s+(1[0-2]|0[1-9]|[1-9]):([0-5]\d|\d)\s+(am|pm)\<close>,
  matched without regard to case at the beginning of the string; it raises
  \<^verbatim>\<open>ValueError\<close> when the pattern does not match, when text remains after the match,
  and when the date does not exist. \<open>None\<close> stands for the \<^verbatim>\<open>ValueError\<close>.
\<close>

record datetime =
  year :: nat
  month :: nat
  day :: nat
  hour :: nat
  minute :: nat

definition nonzero :: cls where
  "nonzero = OneOf ''123456789''"

definition upto12 :: rx where
  "upto12 = Alt (Cat [Lit ''1'', One (OneOf ''012'')]) (Alt (Cat [Lit ''0'', One nonzero]) (One nonzero))"

definition strptime_pattern :: rx where
  "strptime_pattern = Cat [
     Grp upto12, Lit ''/'',
     Grp (Alt (Cat [Lit ''3'', One (OneOf ''01'')]) (Alt (Cat [One (OneOf ''12''), One Digit])
          (Alt (Cat [Lit ''0'', One nonzero]) (Alt (One nonzero) (Cat [Lit '' '', One nonzero]))))),
     Lit ''/'',
     Grp (Cat [One Digit, One Digit, One Digit, One Digit]), Plus Space,
     Grp upto12, Lit '':'',
     Grp (Alt (Cat [One (OneOf ''012345''), One Digit]) (One Digit)), Plus Space,
     Grp (Alt (Cat [One (OneOf ''aA''), One (OneOf ''mM'')]) (Cat [One (OneOf ''pP''), One (OneOf ''mM'')]))]"

text \<open>\<^verbatim>\<open>int(s)\<close> on a string of decimal digits.\<close>

definition digit_val :: "char \<Rightarrow> nat" where
  "digit_val c = of_char c - 48"

definition int_of :: "string \<Rightarrow> nat" where
  "int_of s = foldl (\<lambda>n c. 10 * n + digit_val c) 0 s"

definition is_leap :: "nat \<Rightarrow> bool" where
  "is_leap y = (y mod 4 = 0 \<and> (y mod 100 \<noteq> 0 \<or> y mod 400 = 0))"

definition days_in_month :: "nat \<Rightarrow> nat \<Rightarrow> nat" where
  "days_in_month y m =
     (if m = 2 then (if is_leap y then 29 else 28)
      else if m \<in> {4, 6, 9, 11} then 30 else 31)"

text \<open>The checks of the \<^verbatim>\<open>date\<close> constructor, which raises \<^verbatim>\<open>ValueError\<close> too.\<close>

definition valid_date :: "nat \<Rightarrow> nat \<Rightarrow> nat \<Rightarrow> bool" where
  "valid_date y m d = (1 \<le> y \<and> y \<le> 9999 \<and> 1 \<le> m \<and> m \<le> 12 \<and> 1 \<le> d \<and> d \<le> days_in_month y m)"

definition strptime :: "string \<Rightarrow> datetime option" where
  "strptime data_string =
     (case match_at strptime_pattern data_string of
        None \<Rightarrow> None
      | Some (n, g) \<Rightarrow>
          if n \<noteq> length data_string then None
          else (case g of
            [gm, gd, gY, gI, gM, gp] \<Rightarrow>
              let h12 = int_of gI;
                  h = (if hd gp \<in> set ''aA'' then (if h12 = 12 then 0 else h12)
                       else (if h12 \<noteq> 12 then h12 + 12 else h12))
              in if valid_date (int_of gY) (int_of gm) (int_of gd)
                 then Some \<lparr>year = int_of gY, month = int_of gm, day = int_of gd,
                             hour = h, minute = int_of gM\<rparr>
                 else None
          | _ \<Rightarrow> None))"

text \<open>
  \<^verbatim>\<open>timestamp.isoformat()\<close>: \<^verbatim>\<open>%04d-%02d-%02dT%02d:%02d:%02d\<close>; the seconds are
  zero, and so are the microseconds, which are then left out.
\<close>

definition digit_chr :: "nat \<Rightarrow> char" where
  "digit_chr k = char_of (48 + k mod 10)"

definition pad2 :: "nat \<Rightarrow> string" where
  "pad2 n = [digit_chr (n div 10), digit_chr n]"

definition pad4 :: "nat \<Rightarrow> string" where
  "pad4 n = [digit_chr (n div 1000), digit_chr (n div 100), digit_chr (n div 10), digit_chr n]"

definition isoformat :: "datetime \<Rightarrow> string" where
  "isoformat t = pad4 (year t) @ ''-'' @ pad2 (month t) @ ''-'' @ pad2 (day t) @ ''T'' @
                 pad2 (hour t) @ '':'' @ pad2 (minute t) @ '':00''"

section \<open>The parser\<close>

record doc_metadata =
  md_guild :: "string option"
  md_channel :: "string option"
  md_topic :: "string option"

record msg_metadata =
  attachments :: "string list"
  embeds :: "string list"
  reactions :: "string list"
  channel :: "string option"
  guild :: "string option"

record message =
  timestamp :: string
  author :: string
  msg_text :: string
  metadata :: msg_metadata

text \<open>\<^verbatim>\<open>header_match.group(i)\<close>, for the optional match of the header.\<close>

definition group :: "rmatch \<Rightarrow> nat \<Rightarrow> string" where
  "group m i = m_groups m ! (i - 1)"

definition extract_header :: "string \<Rightarrow> doc_metadata" where
  "extract_header content0 =
     (let header_match = search header_pattern content0
      in \<lparr>md_guild = (case header_match of Some h \<Rightarrow> Some (group h 1) | None \<Rightarrow> None),
          md_channel = (case header_match of
                          Some h \<Rightarrow> Some (last (split '' / '' (group h 2))) | None \<Rightarrow> None),
          md_topic = (case header_match of Some h \<Rightarrow> Some (group h 3) | None \<Rightarrow> None)\<rparr>)"

text \<open>The three extractions and the cleaning of lines 42 to 69, as functions of the string scanned.\<close>

definition extract_attachments :: "string \<Rightarrow> string list" where
  "extract_attachments c = map (\<lambda>att_match. group att_match 1) (finditer attachment_pattern c)"

definition extract_embeds :: "string \<Rightarrow> string list" where
  "extract_embeds c =
     (case search (section_pattern ''{Embed}'') c of
        None \<Rightarrow> []
      | Some embed_section \<Rightarrow>
          (let embed_content = strip (group embed_section 1)
           in map strip (filter (\<lambda>line. strip line \<noteq> []) (split ''\<newline>'' embed_content))))"

definition extract_reactions :: "string \<Rightarrow> string list" where
  "extract_reactions c =
     (case search (section_pattern ''{Reactions}'') c of
        None \<Rightarrow> []
      | Some reaction_section \<Rightarrow>
          map strip (filter (\<lambda>r. strip r \<noteq> []) (split ''\<newline>'' (group reaction_section 1))))"

definition clean :: "string \<Rightarrow> string" where
  "clean c =
     (let clean_content = sub_empty (removal_pattern ''{Attachments}'') c;
          clean_content = sub_empty (removal_pattern ''{Embed}'') clean_content;
          clean_content = sub_empty (removal_pattern ''{Reactions}'') clean_content;
          clean_content = join ''\<newline>''
             (filter (\<lambda>line. strip line \<noteq> []) (split ''\<newline>'' clean_content))
      in strip clean_content)"

text \<open>
  The loop of \<^verbatim>\<open>parse_discord_data\<close> has two variables that it assigns: \<^verbatim>\<open>content\<close>,
  which holds the document when the loop starts and which the first statement of the body
  binds again, and the list \<^verbatim>\<open>messages\<close>. The body reads \<^verbatim>\<open>content\<close> from the state
  after that assignment. A match of \<open>message_pattern\<close> has three groups; the last case
  of the body is never taken.
\<close>

record pstate =
  content :: string
  messages :: "message list"

definition loop_body :: "doc_metadata \<Rightarrow> rmatch \<Rightarrow> pstate \<Rightarrow> pstate" where
  "loop_body md m st =
     (case m_groups m of
        [timestamp_str, auth, body] \<Rightarrow>
          (let st = st\<lparr>content := body\<rparr>;
               formatted_timestamp =
                 (case strptime timestamp_str of
                    Some t \<Rightarrow> isoformat t
                  | None \<Rightarrow> timestamp_str);
               msg = \<lparr>timestamp = formatted_timestamp, author = auth,
                       msg_text = clean (content st),
                       metadata = \<lparr>attachments = extract_attachments (content st),
                                    embeds = extract_embeds (content st),
                                    reactions = extract_reactions (content st),
                                    channel = md_channel md, guild = md_guild md\<rparr>\<rparr>
           in st\<lparr>messages := messages st @ [msg]\<rparr>)
      | _ \<Rightarrow> st)"

text \<open>
  \<^verbatim>\<open>parse_discord_data\<close>, after the file has been read: \<^verbatim>\<open>re.finditer\<close> receives the
  document before the loop runs.
\<close>

definition parse_discord_data :: "string \<Rightarrow> message list \<times> doc_metadata" where
  "parse_discord_data content0 =
     (let md = extract_header content0;
          matches = finditer message_pattern content0;
          final = foldl (\<lambda>st m. loop_body md m st) \<lparr>content = content0, messages = []\<rparr> matches
      in (messages final, md))"


section \<open>The serializers\<close>

text \<open>
  \<^verbatim>\<open>json.dumps\<close> and \<^verbatim>\<open>json.dump\<close> come from the standard library; the source calls
  them with the default \<^verbatim>\<open>ensure_ascii\<close>. A string is written between double quotes;
  the double quote, the backslash and the characters outside the range from the space
  to \<^verbatim>\<open>~\<close> are escaped, with the short forms for backspace, tab, newline, form feed
  and carriage return and \<^verbatim>\<open>\u00XX\<close>, in lower-case hexadecimal, for the others.
  \<^verbatim>\<open>None\<close> is written \<^verbatim>\<open>null\<close>.
\<close>

definition hex_digit :: "nat \<Rightarrow> char" where
  "hex_digit k = ''0123456789abcdef'' ! (k mod 16)"

definition escape_char :: "char \<Rightarrow> string" where
  "escape_char c =
     (if c = CHR 0x22 then [CHR 0x5C, CHR 0x22]
      else if c = CHR 0x5C then [CHR 0x5C, CHR 0x5C]
      else if c = CHR 0x08 then [CHR 0x5C, CHR ''b'']
      else if c = CHR 0x0C then [CHR 0x5C, CHR ''f'']
      else if c = CHR 0x0A then [CHR 0x5C, CHR ''n'']
      else if c = CHR 0x0D then [CHR 0x5C, CHR ''r'']
      else if c = CHR 0x09 then [CHR 0x5C, CHR ''t'']
      else if (of_char c :: nat) < 32 \<or> 126 < (of_char c :: nat)
        then [CHR 0x5C, CHR ''u'', CHR ''0'', CHR ''0'',
              hex_digit (of_char c div 16), hex_digit (of_char c)]
      else [c])"

definition json_string :: "string \<Rightarrow> string" where
  "json_string s = [CHR 0x22] @ concat (map escape_char s) @ [CHR 0x22]"

definition json_optional :: "string option \<Rightarrow> string" where
  "json_optional v = (case v of None \<Rightarrow> ''null'' | Some s \<Rightarrow> json_string s)"

text \<open>
  \<^verbatim>\<open>json.dumps(message)\<close>: one line, the items separated by a comma and a space, the
  keys in the order in which the source builds the dictionary.
\<close>

definition dumps_list :: "string list \<Rightarrow> string" where
  "dumps_list xs = ''['' @ join '', '' (map json_string xs) @ '']''"

definition dumps_dict :: "(string \<times> string) list \<Rightarrow> string" where
  "dumps_dict items = ''{'' @ join '', '' (map (\<lambda>(k, v). json_string k @ '': '' @ v) items) @ ''}''"

definition dumps :: "message \<Rightarrow> string" where
  "dumps m = dumps_dict
     [(''timestamp'', json_string (timestamp m)),
      (''author'', json_string (author m)),
      (''text'', json_string (msg_text m)),
      (''metadata'', dumps_dict
         [(''attachments'', dumps_list (attachments (metadata m))),
          (''embeds'', dumps_list (embeds (metadata m))),
          (''reactions'', dumps_list (reactions (metadata m))),
          (''channel'', json_optional (channel (metadata m))),
          (''guild'', json_optional (guild (metadata m)))])]"

text \<open>
  \<^verbatim>\<open>json.dump(messages, f, indent=2)\<close>: every item of a list or dictionary that is not
  empty is on a line of its own, two spaces deeper than the bracket that opens it; an
  empty list is written \<^verbatim>\<open>[]\<close>. \<open>newline_indent level\<close> is the newline and the
  indentation of that level.
\<close>

definition newline_indent :: "nat \<Rightarrow> string" where
  "newline_indent level = CHR ''\<newline>'' # replicate (2 * level) CHR '' ''"

definition indent_items :: "nat \<Rightarrow> string list \<Rightarrow> string" where
  "indent_items level items =
     newline_indent (level + 1) @ join ('','' @ newline_indent (level + 1)) items @ newline_indent level"

definition indent_list :: "nat \<Rightarrow> string list \<Rightarrow> string" where
  "indent_list level items = (if items = [] then ''[]'' else ''['' @ indent_items level items @ '']'')"

definition indent_dict :: "nat \<Rightarrow> (string \<times> string) list \<Rightarrow> string" where
  "indent_dict level items =
     ''{'' @ indent_items level (map (\<lambda>(k, v). json_string k @ '': '' @ v) items) @ ''}''"

definition indent_message :: "nat \<Rightarrow> message \<Rightarrow> string" where
  "indent_message level m = indent_dict level
     [(''timestamp'', json_string (timestamp m)),
      (''author'', json_string (author m)),
      (''text'', json_string (msg_text m)),
      (''metadata'', indent_dict (level + 1)
         [(''attachments'', indent_list (level + 2) (map json_string (attachments (metadata m)))),
          (''embeds'', indent_list (level + 2) (map json_string (embeds (metadata m)))),
          (''reactions'', indent_list (level + 2) (map json_string (reactions (metadata m)))),
          (''channel'', json_optional (channel (metadata m))),
          (''guild'', json_optional (guild (metadata m)))])]"

text \<open>
  The two writers, as the text that the output file holds afterwards:
  \<^verbatim>\<open>save_for_label_studio\<close> writes the array with \<^verbatim>\<open>indent=2\<close>, \<^verbatim>\<open>save_to_jsonl\<close>
  writes \<^verbatim>\<open>json.dumps(message) + '\n'\<close> for each message.
\<close>

definition save_for_label_studio :: "message list \<Rightarrow> string" where
  "save_for_label_studio msgs = indent_list 0 (map (indent_message 1) msgs)"

definition save_to_jsonl :: "message list \<Rightarrow> string" where
  "save_to_jsonl msgs = concat (map (\<lambda>message. dumps message @ ''\<newline>'') msgs)"
section \<open>Reading the patterns without backtracking\<close>

text \<open>
  The properties below are stated with direct readers of the text, each proved equal to
  what the matcher does on the pattern of the source. \<open>digits_then c\<close> reads one or
  more digits and the character \<open>c\<close>; \<open>stamp_rest\<close> reads a timestamp
  \<open>M/D/Y H:Min AM\<close> or \<open>PM\<close> and gives the text after it; \<open>is_stamp\<close>
  holds of the strings that are such a timestamp.
\<close>

definition digits :: "string \<Rightarrow> bool" where
  "digits d = (d \<noteq> [] \<and> (\<forall>x\<in>set d. isdigit x))"

definition digits_then :: "char \<Rightarrow> string \<Rightarrow> string option" where
  "digits_then c s =
     (let r = dropWhile isdigit s
      in if s \<noteq> [] \<and> isdigit (hd s) \<and> r \<noteq> [] \<and> hd r = c then Some (tl r) else None)"

definition am_pm :: "string \<Rightarrow> string option" where
  "am_pm s = (case s of x # y # t \<Rightarrow> if x \<in> set ''AP'' \<and> y = CHR ''M'' then Some t else None
              | _ \<Rightarrow> None)"

definition stamp_rest :: "string \<Rightarrow> string option" where
  "stamp_rest s =
     Option.bind (digits_then CHR ''/'' s) (\<lambda>s.
     Option.bind (digits_then CHR ''/'' s) (\<lambda>s.
     Option.bind (digits_then CHR '' '' s) (\<lambda>s.
     Option.bind (digits_then CHR '':'' s) (\<lambda>s.
     Option.bind (digits_then CHR '' '' s) am_pm))))"

definition is_stamp :: "string \<Rightarrow> bool" where
  "is_stamp ts = (stamp_rest ts = Some [])"

text \<open>The text begins with a bracketed timestamp: the look-ahead of \<open>message_pattern\<close> succeeds on it.\<close>

definition bracket_at :: "string \<Rightarrow> bool" where
  "bracket_at u = (ms bracket (u, []) \<noteq> [])"

text \<open>
  The number of characters that a lazy \<^verbatim>\<open>.*?\<close> under \<^verbatim>\<open>re.DOTALL\<close> takes when it is
  followed by a look-ahead that holds where \<open>P\<close> does and at the end of the text: the
  distance to the first position where \<open>P\<close> holds, or to the end.
\<close>

fun lazy_len :: "(string \<Rightarrow> bool) \<Rightarrow> string \<Rightarrow> nat" where
  "lazy_len P [] = 0"
| "lazy_len P (x # xs) = (if P (x # xs) then 0 else Suc (lazy_len P xs))"

text \<open>
  The delimiter line \<open>[timestamp] author\<close> with its newline, at the beginning of the
  text: the timestamp, the author and the text after the newline.
\<close>

definition delim_parts :: "string \<Rightarrow> (string \<times> string \<times> string) option" where
  "delim_parts s =
     (case s of [] \<Rightarrow> None
      | c # s1 \<Rightarrow>
         if c \<noteq> CHR ''['' then None
         else (case stamp_rest s1 of None \<Rightarrow> None
           | Some t \<Rightarrow>
               if take 2 t \<noteq> ''] '' then None
               else (let a = takeWhile (\<lambda>c. c \<noteq> CHR ''\<newline>'') (drop 2 t);
                         r = dropWhile (\<lambda>c. c \<noteq> CHR ''\<newline>'') (drop 2 t)
                     in if a = [] \<or> r = [] then None
                        else Some (take (length s1 - length t) s1, a, tl r))))"

text \<open>
  Matches listed from left to right without overlap: each begins at or after \<open>p\<close>, the
  end of the one before, and none is empty.
\<close>

fun in_order :: "nat \<Rightarrow> rmatch list \<Rightarrow> bool" where
  "in_order p [] = True"
| "in_order p (m # mts) = (p \<le> m_start m \<and> m_start m < m_end m \<and> in_order (m_end m) mts)"

text \<open>
  A line of the shape \<open>[timestamp] author\<close> with a non-empty author, and the number of
  such lines in a document.
\<close>

definition is_delim_line :: "string \<Rightarrow> bool" where
  "is_delim_line l =
     (case l of [] \<Rightarrow> False
      | c # l1 \<Rightarrow> c = CHR ''['' \<and>
          (case stamp_rest l1 of None \<Rightarrow> False
           | Some t \<Rightarrow> take 2 t = ''] '' \<and> drop 2 t \<noteq> []))"

definition delimiter_lines :: "string \<Rightarrow> nat" where
  "delimiter_lines doc = length (filter is_delim_line (split ''\<newline>'' doc))"

text \<open>
  A document is well formed when a bracketed timestamp occurs only at the beginning of
  a line and is there followed by a space, a non-empty author and a newline. The flag
  of \<open>wf_from\<close> tells whether the text begins a line.
\<close>

definition delim_at :: "string \<Rightarrow> bool" where
  "delim_at u = (delim_parts u \<noteq> None)"

fun wf_from :: "bool \<Rightarrow> string \<Rightarrow> bool" where
  "wf_from b [] = True"
| "wf_from b (x # xs) =
     ((bracket_at (x # xs) \<longrightarrow> b \<and> delim_at (x # xs)) \<and> wf_from (x = CHR ''\<newline>'') xs)"

definition well_formed :: "string \<Rightarrow> bool" where
  "well_formed doc = wf_from True doc"

text \<open>
  The delimiter lines and the bracketed timestamps of a text, counted position by
  position.
\<close>

fun count_lines :: "bool \<Rightarrow> string \<Rightarrow> nat" where
  "count_lines b [] = 0"
| "count_lines b (x # xs) =
     (if b \<and> is_delim_line (takeWhile (\<lambda>c. c \<noteq> CHR ''\<newline>'') (x # xs)) then 1 else 0)
     + count_lines (x = CHR ''\<newline>'') xs"

fun count_brackets :: "string \<Rightarrow> nat" where
  "count_brackets [] = 0"
| "count_brackets (x # xs) = (if bracket_at (x # xs) then 1 else 0) + count_brackets xs"

text \<open>
  The banner at the beginning of a text: a line of two or more \<open>=\<close>, the lines
  \<open>Guild: \<close>, \<open>Channel: \<close> and \<open>Topic: \<close> with the rest of each line as value,
  and a closing line that begins with two \<open>=\<close>. \<open>line_after lit\<close> reads the
  literal and gives the rest of its line and the text from the newline on;
  \<open>banner_parts\<close> gives the three values and the text after the closing separator.
\<close>

definition line_after :: "string \<Rightarrow> string \<Rightarrow> (string \<times> string) option" where
  "line_after lit s =
     (if take (length lit) s = lit
      then Some (takeWhile (\<lambda>c. c \<noteq> CHR ''\<newline>'') (drop (length lit) s),
                 dropWhile (\<lambda>c. c \<noteq> CHR ''\<newline>'') (drop (length lit) s))
      else None)"

definition banner_parts :: "string \<Rightarrow> (string \<times> string \<times> string \<times> string) option" where
  "banner_parts s =
     (if take 2 s \<noteq> ''=='' then None
      else (case line_after ''\<newline>Guild: '' (dropWhile (\<lambda>c. c = CHR ''='') s) of
         None \<Rightarrow> None
       | Some (g, r1) \<Rightarrow>
          (case line_after ''\<newline>Channel: '' r1 of
             None \<Rightarrow> None
           | Some (c, r2) \<Rightarrow>
              (case line_after ''\<newline>Topic: '' r2 of
                 None \<Rightarrow> None
               | Some (t, r3) \<Rightarrow>
                   if take 3 r3 = ''\<newline>=='' then Some (g, c, t, dropWhile (\<lambda>c. c = CHR ''='') (drop 1 r3))
                   else None))))"

text \<open>The metadata when no banner is found: every field is \<^verbatim>\<open>None\<close>.\<close>

definition no_metadata :: doc_metadata where
  "no_metadata = \<lparr>md_guild = None, md_channel = None, md_topic = None\<rparr>"






text \<open>
  Where the removal of a section stops: before a blank line and before a line that
  begins with \<open>[\<close>.
\<close>

definition boundary :: "string \<Rightarrow> bool" where
  "boundary u = (take 2 u = ''\<newline>\<newline>'' \<or> take 2 u = ''\<newline>['')"

text \<open>
  The timestamp as the specification reads it: month, day, year, hour and minute in
  decimal digits and the letter of \<open>AM\<close> or \<open>PM\<close>. \<open>hour24\<close> is the hour of the
  day of a twelve-hour reading; \<open>read_fields\<close> is the date and time when the month and
  the day have one or two digits and exist in the calendar of the four-digit year, the
  hour is from 1 to 12 and the minute from 0 to 59, each in one or two digits.
\<close>

definition hour24 :: "nat \<Rightarrow> char \<Rightarrow> nat" where
  "hour24 h ap = h mod 12 + (if ap = CHR ''P'' then 12 else 0)"

definition read_fields :: "string \<Rightarrow> string \<Rightarrow> string \<Rightarrow> string \<Rightarrow> string \<Rightarrow> char \<Rightarrow> datetime option" where
  "read_fields mo d y h mi ap =
     (if length mo \<le> 2 \<and> length d \<le> 2 \<and> length y = 4 \<and> length h \<le> 2 \<and> length mi \<le> 2
         \<and> 1 \<le> int_of h \<and> int_of h \<le> 12 \<and> int_of mi \<le> 59
         \<and> valid_date (int_of y) (int_of mo) (int_of d)
      then Some \<lparr>year = int_of y, month = int_of mo, day = int_of d,
                  hour = hour24 (int_of h) ap, minute = int_of mi\<rparr>
      else None)"

text \<open>
  The groups of \<open>strptime_pattern\<close> by name, and the digit strings that the
  alternatives of the month and hour group, of the day group and of the minute group
  accept.
\<close>

definition day_rx :: rx where
  "day_rx = Alt (Cat [Lit ''3'', One (OneOf ''01'')]) (Alt (Cat [One (OneOf ''12''), One Digit])
          (Alt (Cat [Lit ''0'', One nonzero]) (Alt (One nonzero) (Cat [Lit '' '', One nonzero]))))"

definition year_rx :: rx where
  "year_rx = Cat [One Digit, One Digit, One Digit, One Digit]"

definition minute_rx :: rx where
  "minute_rx = Alt (Cat [One (OneOf ''012345''), One Digit]) (One Digit)"

definition ampm_rx :: rx where
  "ampm_rx = Alt (Cat [One (OneOf ''aA''), One (OneOf ''mM'')]) (Cat [One (OneOf ''pP''), One (OneOf ''mM'')])"

definition acc12 :: "string \<Rightarrow> bool" where
  "acc12 d = (case d of [a] \<Rightarrow> a \<in> set ''123456789''
     | [a, b] \<Rightarrow> (a = CHR ''1'' \<and> b \<in> set ''012'') \<or> (a = CHR ''0'' \<and> b \<in> set ''123456789'')
     | _ \<Rightarrow> False)"

definition acc_day :: "string \<Rightarrow> bool" where
  "acc_day d = (case d of [a] \<Rightarrow> a \<in> set ''123456789''
     | [a, b] \<Rightarrow> (a = CHR ''3'' \<and> b \<in> set ''01'') \<or> (a \<in> set ''12'' \<and> isdigit b)
                  \<or> (a = CHR ''0'' \<and> b \<in> set ''123456789'')
     | _ \<Rightarrow> False)"

definition acc_minute :: "string \<Rightarrow> bool" where
  "acc_minute d = (case d of [a] \<Rightarrow> isdigit a
     | [a, b] \<Rightarrow> a \<in> set ''012345'' \<and> isdigit b
     | _ \<Rightarrow> False)"
section \<open>Documents of the scenarios\<close>

definition scenario_A :: string where
  "scenario_A = ''==========\<newline>Guild: TestGuild\<newline>Channel: General / chat\<newline>Topic: none\<newline>==========\<newline>[1/2/2023 3:04 PM] Alice\<newline>hello world''"

text \<open>Two messages, each with an embed section and a reactions section of its own.\<close>

definition two_embeds :: string where
  "two_embeds = ''[1/2/2023 3:04 PM] Alice\<newline>hi\<newline>{Embed}\<newline>first\<newline>{Reactions}\<newline>one\<newline>[1/2/2023 3:05 PM] Bob\<newline>yo\<newline>{Embed}\<newline>second\<newline>{Reactions}\<newline>two\<newline>''"

text \<open>One message whose attachments section lists two addresses; scenario B lists one.\<close>

definition two_urls :: string where
  "two_urls = ''[1/2/2023 3:04 PM] Alice\<newline>see\<newline>{Attachments}\<newline>https://example.com/a.png\<newline>https://example.com/b.png\<newline>''"

definition scenario_B :: string where
  "scenario_B = ''[1/2/2023 3:04 PM] Alice\<newline>see\<newline>{Attachments}\<newline>https://example.com/a.png\<newline>''"

text \<open>Scenario C: a timestamp that is no date.\<close>

definition scenario_C :: string where
  "scenario_C = ''[99/99/9999 1:00 PM] Alice\<newline>hello\<newline>''"

text \<open>A delimiter in the middle of a line, and a bracketed timestamp inside a body line.\<close>

definition midline :: string where
  "midline = ''x[1/2/2023 3:04 PM] Bob\<newline>hi [1/2/2023 3:05 PM] and more\<newline>''"

text \<open>A file that ends with a delimiter line and no newline after it.\<close>

definition no_newline_end :: string where
  "no_newline_end = ''[1/2/2023 3:04 PM] Alice\<newline>hello\<newline>[1/2/2023 3:05 PM] Bob''"

text \<open>Scenario A with a second body line that quotes a timestamp and a name.\<close>

definition quoted_stamp :: string where
  "quoted_stamp = ''==========\<newline>Guild: TestGuild\<newline>Channel: General / chat\<newline>Topic: none\<newline>==========\<newline>[1/2/2023 3:04 PM] Alice\<newline>see [1/2/2023 3:05 PM] Bob\<newline>bye\<newline>''"



text \<open>A message with the three markers, one of them inside a line.\<close>

definition all_markers :: string where
  "all_markers = ''[1/2/2023 3:04 PM] Alice\<newline>see\<newline>{Attachments}\<newline>https://example.com/a.png\<newline>\<newline>more {Embed} inline\<newline>\<newline>{Reactions}\<newline>ok\<newline>''"

text \<open>A file with the banner and no message.\<close>

definition no_messages :: string where
  "no_messages = ''==========\<newline>Guild: TestGuild\<newline>Channel: General / chat\<newline>Topic: none\<newline>==========\<newline>''"
section \<open>The matcher on the patterns of the source\<close>

lemma concat_greedy:
  assumes "\<And>t. t \<noteq> [] \<Longrightarrow> p (hd t) \<Longrightarrow> F t = []"
  shows "concat (map F (rev (lazy_rests p s))) = F (dropWhile p s)"
proof (induction s)
  case Nil
  show ?case by simp
next
  case (Cons x xs)
  show ?case using Cons assms[of "x # xs"] by simp
qed

lemma concat_greedy_plus:
  assumes "\<And>t. t \<noteq> [] \<Longrightarrow> p (hd t) \<Longrightarrow> F t = []"
  shows "concat (map F (butlast (rev (lazy_rests p s)))) =
           (if s \<noteq> [] \<and> p (hd s) then F (dropWhile p s) else [])"
  by (cases s) (simp_all add: concat_greedy[OF assms])

lemma take_length_dropWhile: "take (length s - length (dropWhile p s)) s = takeWhile p s"
proof -
  have "length s - length (dropWhile p s) = length (takeWhile p s)"
    by (metis add_diff_cancel_right' length_append takeWhile_dropWhile_id)
  then show ?thesis by (simp add: takeWhile_eq_take[symmetric])
qed

lemma ms_Lit_Cons: "ms (Cat (Lit l # rs)) (s, g) =
   (if take (length l) s = l then ms (Cat rs) (drop (length l) s, g) else [])"
  by simp

lemma ms_Plus_Cons:
  assumes "\<And>t. t \<noteq> [] \<Longrightarrow> cls_mem c (hd t) \<Longrightarrow> ms (Cat rs) (t, g) = []"
  shows "ms (Cat (Plus c # rs)) (s, g) =
     (if s \<noteq> [] \<and> cls_mem c (hd s) then ms (Cat rs) (dropWhile (cls_mem c) s, g) else [])"
  using concat_greedy_plus[where F = "\<lambda>t. ms (Cat rs) (t, g)" and p = "cls_mem c" and s = s] assms
  by (simp add: o_def)

lemma ms_GrpPlus_Cons:
  assumes "\<And>t g'. t \<noteq> [] \<Longrightarrow> cls_mem c (hd t) \<Longrightarrow> ms (Cat rs) (t, g') = []"
  shows "ms (Cat (Grp (Plus c) # rs)) (s, g) =
     (if s \<noteq> [] \<and> cls_mem c (hd s)
      then ms (Cat rs) (dropWhile (cls_mem c) s, g @ [takeWhile (cls_mem c) s]) else [])"
  using concat_greedy_plus[where F = "\<lambda>t. ms (Cat rs) (t, g @ [take (length s - length t) s])"
      and p = "cls_mem c" and s = s] assms
  by (simp add: o_def take_length_dropWhile)

lemma ms_GrpStar_Cons:
  assumes "\<And>t g'. t \<noteq> [] \<Longrightarrow> cls_mem c (hd t) \<Longrightarrow> ms (Cat rs) (t, g') = []"
  shows "ms (Cat (Grp (Star c) # rs)) (s, g) =
      ms (Cat rs) (dropWhile (cls_mem c) s, g @ [takeWhile (cls_mem c) s])"
  using concat_greedy[where F = "\<lambda>t. ms (Cat rs) (t, g @ [take (length s - length t) s])"
      and p = "cls_mem c" and s = s] assms
  by (simp add: o_def take_length_dropWhile)

lemma ms_Lit_hd: "t \<noteq> [] \<Longrightarrow> hd t \<noteq> x \<Longrightarrow> ms (Cat (Lit (x # l) # rs)) (t, g) = []"
  by (cases t) auto

lemma digits_step:
  assumes "\<not> isdigit x"
  shows "ms (Cat (Plus Digit # Lit [x] # rs)) (s, g) =
     (case digits_then x s of None \<Rightarrow> [] | Some t \<Rightarrow> ms (Cat rs) (t, g))"
proof -
  have "ms (Cat (Plus Digit # Lit [x] # rs)) (s, g) =
     (if s \<noteq> [] \<and> cls_mem Digit (hd s) then ms (Cat (Lit [x] # rs)) (dropWhile (cls_mem Digit) s, g) else [])"
  proof (rule ms_Plus_Cons)
    fix t :: string assume "t \<noteq> []" "cls_mem Digit (hd t)"
    then show "ms (Cat (Lit [x] # rs)) (t, g) = []"
      using assms by (intro ms_Lit_hd) auto
  qed
  also have "\<dots> = (case digits_then x s of None \<Rightarrow> [] | Some t \<Rightarrow> ms (Cat rs) (t, g))"
  proof -
    define r where "r = dropWhile isdigit s"
    have "cls_mem Digit = isdigit" by (simp add: fun_eq_iff)
    then show ?thesis
      unfolding digits_then_def Let_def
      apply (simp only:)
      unfolding r_def[symmetric]
      by (cases r) auto
  qed
  finally show ?thesis .
qed

lemma am_pm_step: "ms (Cat (One (OneOf ''AP'') # Lit ''M'' # rs)) (t, g) =
    (case am_pm t of None \<Rightarrow> [] | Some u \<Rightarrow> ms (Cat rs) (u, g))"
  by (auto simp: am_pm_def split: list.splits)

lemma ms_stamp: "ms stamp (s, g) = (case stamp_rest s of None \<Rightarrow> [] | Some t \<Rightarrow> [(t, g)])"
proof -
  have nd: "\<not> isdigit CHR ''/''" "\<not> isdigit CHR '' ''" "\<not> isdigit CHR '':''"
    by (simp_all add: isdigit_def)
  note st = digits_step[OF nd(1)] digits_step[OF nd(2)] digits_step[OF nd(3)]
  show ?thesis
    unfolding stamp_def stamp_rest_def
    by (simp only: st am_pm_step ms.simps(6))
       (simp split: option.splits Option.bind_splits)
qed

lemma ms_stamp_Cons: "ms (Cat (stamp # rs)) (s, g) =
    (case stamp_rest s of None \<Rightarrow> [] | Some t \<Rightarrow> ms (Cat rs) (t, g))"
  by (simp add: ms_stamp split: option.splits)

lemma bracket_at_indep: "(ms bracket (u, g) = []) = (\<not> bracket_at u)"
  unfolding bracket_at_def bracket_def
  by (simp add: ms_Lit_Cons ms_stamp_Cons del: ms.simps(7) split: option.splits)

lemma bracket_at_iff: "bracket_at u =
   (case u of [] \<Rightarrow> False
    | c # u' \<Rightarrow> c = CHR ''['' \<and>
       (case stamp_rest u' of None \<Rightarrow> False | Some t \<Rightarrow> t \<noteq> [] \<and> hd t = CHR '']''))"
proof (cases u)
  case Nil
  then show ?thesis by (simp add: bracket_at_def bracket_def)
next
  case (Cons c u')
  show ?thesis
  proof (cases "stamp_rest u'")
    case None
    then show ?thesis unfolding bracket_at_def bracket_def Cons
      by (simp add: ms_Lit_Cons ms_stamp_Cons del: ms.simps(7))
  next
    case (Some t)
    then show ?thesis unfolding bracket_at_def bracket_def Cons
      by (cases t) (simp_all add: ms_Lit_Cons ms_stamp_Cons del: ms.simps(7))
  qed
qed

lemma lazy_first:
  "\<exists>rest. concat (map (\<lambda>u. if P u \<or> u = [] then [G u] else []) (lazy_rests (\<lambda>_. True) t))
       = G (drop (lazy_len P t) t) # rest"
  by (induction t) auto

lemma ms_Grp_stamp_Cons: "ms (Cat (Grp stamp # rs)) (s, g) =
    (case stamp_rest s of None \<Rightarrow> []
     | Some t \<Rightarrow> ms (Cat rs) (t, g @ [take (length s - length t) s]))"
  by (simp add: ms_stamp split: option.splits)

lemma ms_author_Cons: "ms (Cat (Grp (Plus NotNL) # Lit ''\<newline>'' # rs)) (s, g) =
    (let a = takeWhile (\<lambda>c. c \<noteq> CHR ''\<newline>'') s; r = dropWhile (\<lambda>c. c \<noteq> CHR ''\<newline>'') s
     in if a = [] \<or> r = [] then [] else ms (Cat rs) (tl r, g @ [a]))"
proof -
  have eq: "cls_mem NotNL = (\<lambda>c. c \<noteq> CHR ''\<newline>'')" by (simp add: fun_eq_iff)
  have "ms (Cat (Grp (Plus NotNL) # Lit ''\<newline>'' # rs)) (s, g) =
     (if s \<noteq> [] \<and> cls_mem NotNL (hd s)
      then ms (Cat (Lit ''\<newline>'' # rs)) (dropWhile (cls_mem NotNL) s, g @ [takeWhile (cls_mem NotNL) s]) else [])"
    by (rule ms_GrpPlus_Cons, rule ms_Lit_hd) simp_all
  also have "\<dots> = (let a = takeWhile (\<lambda>c. c \<noteq> CHR ''\<newline>'') s; r = dropWhile (\<lambda>c. c \<noteq> CHR ''\<newline>'') s
     in if a = [] \<or> r = [] then [] else ms (Cat rs) (tl r, g @ [a]))"
  proof (cases s)
    case Nil
    then show ?thesis by simp
  next
    case (Cons x xs)
    define r where "r = dropWhile (\<lambda>c. c \<noteq> CHR ''\<newline>'') xs"
    have hdr: "r \<noteq> [] \<Longrightarrow> hd r = CHR ''\<newline>''"
      unfolding r_def using hd_dropWhile[of "\<lambda>c. c \<noteq> CHR ''\<newline>''" xs] by auto
    show ?thesis
      unfolding eq Cons using hdr
      by (cases r) (auto simp: Let_def r_def[symmetric] ms_Lit_Cons simp del: ms.simps(7))
  qed
  finally show ?thesis .
qed

lemma ms_lazy_tail:
  "ms (Cat [Grp (LazyStar AnyChar), Ahead (Alt bracket EndZ)]) (t, g) =
     concat (map (\<lambda>u. if bracket_at u \<or> u = [] then [(u, g @ [take (length t - length u) t])] else [])
                 (lazy_rests (\<lambda>_. True) t))"
proof -
  have eq: "cls_mem AnyChar = (\<lambda>_. True)" by (simp add: fun_eq_iff)
  have "\<And>u g'. ms (Cat [Ahead (Alt bracket EndZ)]) (u, g') = (if bracket_at u \<or> u = [] then [(u, g')] else [])"
    using bracket_at_indep by auto
  then show ?thesis
    by (simp add: eq o_def del: ms.simps(7) add: ms.simps(7)[of "Grp (LazyStar AnyChar)"])
qed

lemma digits_thenD:
  assumes "digits_then c s = Some t"
  shows "\<exists>d. s = d @ c # t \<and> digits d"
proof -
  define r where "r = dropWhile isdigit s"
  from assms have a: "s \<noteq> []" "isdigit (hd s)" "r \<noteq> []" "hd r = c" "tl r = t"
    unfolding digits_then_def Let_def r_def[symmetric] by (auto split: if_splits)
  then have r: "r = c # t" by (cases r) auto
  have "s = takeWhile isdigit s @ c # t"
    using takeWhile_dropWhile_id[of isdigit s] r unfolding r_def by simp
  moreover have "digits (takeWhile isdigit s)"
    using a(1,2) unfolding digits_def by (cases s) (auto dest: set_takeWhileD)
  ultimately show ?thesis by blast
qed

lemma digits_thenI:
  assumes "digits d" "\<not> isdigit c"
  shows "digits_then c (d @ c # t) = Some t"
proof -
  have "dropWhile isdigit (d @ c # t) = c # t"
    using assms by (simp add: digits_def dropWhile_append2)
  moreover have "d @ c # t \<noteq> []" by simp
  moreover have "isdigit (hd (d @ c # t))"
    using assms(1) by (cases d) (simp_all add: digits_def)
  ultimately show ?thesis
    unfolding digits_then_def Let_def by simp
qed

lemma nondigit_seps: "\<not> isdigit CHR ''/''" "\<not> isdigit CHR '' ''" "\<not> isdigit CHR '':''"
  by (simp_all add: isdigit_def)

lemma stamp_restD:
  assumes "stamp_rest s = Some t"
  shows "\<exists>d1 d2 d3 d4 d5 x. s = d1 @ CHR ''/'' # d2 @ CHR ''/'' # d3 @ CHR '' '' # d4 @ CHR '':'' # d5
            @ CHR '' '' # x # CHR ''M'' # t
          \<and> digits d1 \<and> digits d2 \<and> digits d3 \<and> digits d4 \<and> digits d5 \<and> x \<in> set ''AP''"
proof -
  from assms obtain s1 s2 s3 s4 s5 where
    1: "digits_then CHR ''/'' s = Some s1" and 2: "digits_then CHR ''/'' s1 = Some s2" and
    3: "digits_then CHR '' '' s2 = Some s3" and 4: "digits_then CHR '':'' s3 = Some s4" and
    5: "digits_then CHR '' '' s4 = Some s5" and 6: "am_pm s5 = Some t"
    unfolding stamp_rest_def bind_eq_Some_conv by blast
  from 6 obtain x where x: "s5 = x # CHR ''M'' # t" "x \<in> set ''AP''"
    unfolding am_pm_def by (auto split: list.splits if_splits)
  from digits_thenD[OF 1] digits_thenD[OF 2] digits_thenD[OF 3] digits_thenD[OF 4] digits_thenD[OF 5] x
  show ?thesis by blast
qed

lemma stamp_restI:
  assumes "digits d1" "digits d2" "digits d3" "digits d4" "digits d5" "x \<in> set ''AP''"
  shows "stamp_rest (d1 @ CHR ''/'' # d2 @ CHR ''/'' # d3 @ CHR '' '' # d4 @ CHR '':'' # d5
            @ CHR '' '' # x # CHR ''M'' # t) = Some t"
proof -
  let ?r5 = "x # CHR ''M'' # t"
  let ?r4 = "d5 @ CHR '' '' # ?r5"
  let ?r3 = "d4 @ CHR '':'' # ?r4"
  let ?r2 = "d3 @ CHR '' '' # ?r3"
  let ?r1 = "d2 @ CHR ''/'' # ?r2"
  have 1: "digits_then CHR ''/'' (d1 @ CHR ''/'' # ?r1) = Some ?r1"
    by (rule digits_thenI[OF assms(1) nondigit_seps(1)])
  have 2: "digits_then CHR ''/'' ?r1 = Some ?r2"
    by (rule digits_thenI[OF assms(2) nondigit_seps(1)])
  have 3: "digits_then CHR '' '' ?r2 = Some ?r3"
    by (rule digits_thenI[OF assms(3) nondigit_seps(2)])
  have 4: "digits_then CHR '':'' ?r3 = Some ?r4"
    by (rule digits_thenI[OF assms(4) nondigit_seps(3)])
  have 5: "digits_then CHR '' '' ?r4 = Some ?r5"
    by (rule digits_thenI[OF assms(5) nondigit_seps(2)])
  have 6: "am_pm ?r5 = Some t"
    using assms(6) by (simp add: am_pm_def)
  show ?thesis
    unfolding stamp_rest_def by (simp only: 1 2 3 4 5 6 Option.bind.simps)
qed

lemma digits_no_special: "digits d \<Longrightarrow> CHR ''\<newline>'' \<notin> set d \<and> CHR ''['' \<notin> set d \<and> CHR '']'' \<notin> set d"
proof -
  have "\<not> isdigit CHR ''\<newline>''" "\<not> isdigit CHR ''[''" "\<not> isdigit CHR '']''"
    by (simp_all add: isdigit_def)
  then show "digits d \<Longrightarrow> ?thesis" unfolding digits_def by blast
qed

lemma stamp_rest_split:
  assumes "stamp_rest s = Some t"
  shows "\<exists>ts. s = ts @ t \<and> is_stamp ts \<and> CHR ''\<newline>'' \<notin> set ts \<and> CHR ''['' \<notin> set ts \<and> CHR '']'' \<notin> set ts"
proof -
  from stamp_restD[OF assms] obtain d1 d2 d3 d4 d5 x where
    s: "s = d1 @ CHR ''/'' # d2 @ CHR ''/'' # d3 @ CHR '' '' # d4 @ CHR '':'' # d5 @ CHR '' '' # x # CHR ''M'' # t"
    and d: "digits d1" "digits d2" "digits d3" "digits d4" "digits d5" and x: "x \<in> set ''AP''"
    by blast
  let ?ts = "d1 @ CHR ''/'' # d2 @ CHR ''/'' # d3 @ CHR '' '' # d4 @ CHR '':'' # d5 @ CHR '' '' # x # CHR ''M'' # []"
  have "s = ?ts @ t" using s by simp
  moreover have "is_stamp ?ts" unfolding is_stamp_def by (rule stamp_restI[OF d x])
  moreover have "CHR ''\<newline>'' \<notin> set ?ts \<and> CHR ''['' \<notin> set ?ts \<and> CHR '']'' \<notin> set ?ts"
  proof -
    have "CHR ''\<newline>'' \<noteq> x \<and> CHR ''['' \<noteq> x \<and> CHR '']'' \<noteq> x" using x by auto
    then show ?thesis using d[THEN digits_no_special] by simp
  qed
  ultimately show ?thesis by blast
qed

lemma is_stamp_append: "is_stamp ts \<Longrightarrow> stamp_rest (ts @ t) = Some t"
proof -
  assume "is_stamp ts"
  then have "stamp_rest ts = Some []" by (simp add: is_stamp_def)
  from stamp_restD[OF this] obtain d1 d2 d3 d4 d5 x where
    s: "ts = d1 @ CHR ''/'' # d2 @ CHR ''/'' # d3 @ CHR '' '' # d4 @ CHR '':'' # d5 @ CHR '' '' # x # CHR ''M'' # []"
    and d: "digits d1" "digits d2" "digits d3" "digits d4" "digits d5" and x: "x \<in> set ''AP''"
    by blast
  show ?thesis using stamp_restI[OF d x, of t] s by simp
qed

lemma lazy_len_le: "lazy_len P t \<le> length t"
  by (induction t) auto

lemma lazy_len_stop: "lazy_len P t < length t \<Longrightarrow> P (drop (lazy_len P t) t)"
  by (induction t) auto

lemma lazy_len_min: "k < lazy_len P t \<Longrightarrow> \<not> P (drop k t)"
proof (induction t arbitrary: k)
  case Nil
  then show ?case by simp
next
  case (Cons x xs)
  then show ?case by (cases k) (auto split: if_splits)
qed

lemma ms_message:
  "ms message_pattern (s, []) =
   (case delim_parts s of None \<Rightarrow> []
    | Some (ts, a, t4) \<Rightarrow>
        concat (map (\<lambda>u. if bracket_at u \<or> u = [] then [(u, [ts, a] @ [take (length t4 - length u) t4])] else [])
                    (lazy_rests (\<lambda>_. True) t4)))"
proof -
  have mp: "message_pattern = Cat [Lit ''['', Grp stamp, Lit ''] '', Grp (Plus NotNL), Lit ''\<newline>'',
     Grp (LazyStar AnyChar), Ahead (Alt bracket EndZ)]"
    by (simp add: message_pattern_def bracket_def)
  show ?thesis
  proof (cases s)
    case Nil
    then show ?thesis unfolding mp by (simp add: delim_parts_def)
  next
    case (Cons c s1)
    show ?thesis
    proof (cases "c = CHR ''[''")
      case False
      then show ?thesis unfolding mp Cons by (simp add: delim_parts_def)
    next
      case True
      show ?thesis
      proof (cases "stamp_rest s1")
        case None
        then show ?thesis unfolding mp Cons using True
          by (simp add: delim_parts_def ms_Lit_Cons ms_Grp_stamp_Cons del: ms.simps(7))
      next
        case (Some t)
        define t2 where "t2 = drop 2 t"
        define a where "a = takeWhile (\<lambda>c. c \<noteq> CHR ''\<newline>'') t2"
        define r where "r = dropWhile (\<lambda>c. c \<noteq> CHR ''\<newline>'') t2"
        have L2: "\<And>rs g. ms (Cat (Lit ''] '' # rs)) (t, g) =
                    (if take 2 t = ''] '' then ms (Cat rs) (t2, g) else [])"
          by (simp add: numeral_2_eq_2 t2_def)
        let ?ts = "take (length s1 - length t) s1"
        have "ms message_pattern (s, []) =
            ms (Cat [Grp stamp, Lit ''] '', Grp (Plus NotNL), Lit ''\<newline>'',
                 Grp (LazyStar AnyChar), Ahead (Alt bracket EndZ)]) (s1, [])"
          unfolding mp Cons True by (simp add: ms_Lit_Cons del: ms.simps(7))
        also have "\<dots> = ms (Cat [Lit ''] '', Grp (Plus NotNL), Lit ''\<newline>'',
                 Grp (LazyStar AnyChar), Ahead (Alt bracket EndZ)]) (t, [?ts])"
          by (simp only: ms_Grp_stamp_Cons Some option.case append_Nil)
        also have "\<dots> = (if take 2 t = ''] '' then
              ms (Cat [Grp (Plus NotNL), Lit ''\<newline>'',
                 Grp (LazyStar AnyChar), Ahead (Alt bracket EndZ)]) (t2, [?ts]) else [])"
          by (rule L2)
        also have "\<dots> = (if take 2 t = ''] '' then
               (if a = [] \<or> r = [] then []
                else ms (Cat [Grp (LazyStar AnyChar), Ahead (Alt bracket EndZ)]) (tl r, [?ts] @ [a]))
             else [])"
          by (simp only: ms_author_Cons Let_def a_def r_def)
        also have "\<dots> = (if take 2 t = ''] '' then
               (if a = [] \<or> r = [] then []
                else concat (map (\<lambda>u. if bracket_at u \<or> u = []
                     then [(u, [?ts, a] @ [take (length (tl r) - length u) (tl r)])] else [])
                    (lazy_rests (\<lambda>_. True) (tl r))))
             else [])"
          by (simp only: ms_lazy_tail) (simp cong: if_cong)
        finally have lhs: "ms message_pattern (s, []) =
            (if take 2 t = ''] '' then
               (if a = [] \<or> r = [] then []
                else concat (map (\<lambda>u. if bracket_at u \<or> u = []
                     then [(u, [?ts, a] @ [take (length (tl r) - length u) (tl r)])] else [])
                    (lazy_rests (\<lambda>_. True) (tl r))))
             else [])" .
        have rhs: "delim_parts s =
            (if take 2 t \<noteq> ''] '' then None
             else if a = [] \<or> r = [] then None
             else Some (take (length s1 - length t) s1, a, tl r))"
          unfolding delim_parts_def Cons True
          by (simp only: list.case Some option.case Let_def t2_def[symmetric] a_def[symmetric]
                r_def[symmetric]) simp
        show ?thesis unfolding lhs rhs by simp
      qed
    qed
  qed
qed

lemma delim_partsD:
  assumes "delim_parts s = Some (ts, a, t4)"
  shows "s = ''['' @ ts @ ''] '' @ a @ ''\<newline>'' @ t4" "is_stamp ts" "a \<noteq> []"
    "CHR ''\<newline>'' \<notin> set a" "CHR ''\<newline>'' \<notin> set ts" "CHR ''['' \<notin> set ts"
proof -
  from assms obtain c s1 where s: "s = c # s1" unfolding delim_parts_def by (cases s) auto
  from assms s have c: "c = CHR ''[''" unfolding delim_parts_def by (auto split: if_splits)
  from assms s c obtain t where t: "stamp_rest s1 = Some t"
    unfolding delim_parts_def by (cases "stamp_rest s1") auto
  define t2 where "t2 = drop 2 t"
  define a' where "a' = takeWhile (\<lambda>c. c \<noteq> CHR ''\<newline>'') t2"
  define r where "r = dropWhile (\<lambda>c. c \<noteq> CHR ''\<newline>'') t2"
  have dp: "delim_parts s =
            (if take 2 t \<noteq> ''] '' then None
             else if a' = [] \<or> r = [] then None
             else Some (take (length s1 - length t) s1, a', tl r))"
    unfolding delim_parts_def s c
    by (simp only: list.case t option.case Let_def t2_def[symmetric] a'_def[symmetric]
          r_def[symmetric]) simp
  from assms dp have k: "take 2 t = ''] ''" "a' \<noteq> []" "r \<noteq> []"
    "ts = take (length s1 - length t) s1" "a = a'" "t4 = tl r"
    by (auto split: if_splits)
  from stamp_rest_split[OF t] obtain ts' where ts': "s1 = ts' @ t" "is_stamp ts'"
    "CHR ''\<newline>'' \<notin> set ts'" "CHR ''['' \<notin> set ts'" by blast
  have tseq: "ts = ts'" using k(4) ts'(1) by simp
  have "hd r = CHR ''\<newline>''"
    using k(3) hd_dropWhile[of "\<lambda>c. c \<noteq> CHR ''\<newline>''" t2] unfolding r_def by auto
  then have r: "r = CHR ''\<newline>'' # t4" using k(3,6) by (cases r) auto
  have "t2 = a' @ r" unfolding a'_def r_def by simp
  moreover have "t = ''] '' @ t2" using k(1) unfolding t2_def
    by (metis append_take_drop_id)
  ultimately show "s = ''['' @ ts @ ''] '' @ a @ ''\<newline>'' @ t4"
    using s c ts'(1) tseq r k(5) by simp
  show "is_stamp ts" "CHR ''\<newline>'' \<notin> set ts" "CHR ''['' \<notin> set ts" using ts' tseq by simp_all
  show "a \<noteq> []" using k by simp
  show "CHR ''\<newline>'' \<notin> set a" unfolding k(5) a'_def by (auto dest: set_takeWhileD)
qed

lemma delim_partsI:
  assumes "is_stamp ts" "a \<noteq> []" "CHR ''\<newline>'' \<notin> set a"
  shows "delim_parts (''['' @ ts @ ''] '' @ a @ ''\<newline>'' @ t4) = Some (ts, a, t4)"
proof -
  have 1: "stamp_rest (ts @ ''] '' @ a @ ''\<newline>'' @ t4) = Some (''] '' @ a @ ''\<newline>'' @ t4)"
    by (rule is_stamp_append[OF assms(1)])
  have 2: "takeWhile (\<lambda>c. c \<noteq> CHR ''\<newline>'') (a @ ''\<newline>'' @ t4) = a"
    using assms(3) by (subst takeWhile_append2) auto
  have 3: "dropWhile (\<lambda>c. c \<noteq> CHR ''\<newline>'') (a @ ''\<newline>'' @ t4) = ''\<newline>'' @ t4"
    using assms(3) by (subst dropWhile_append2) auto
  show ?thesis
    unfolding delim_parts_def using assms(2) 1 2 3
    by (simp add: Let_def numeral_2_eq_2)
qed

lemma match_at_message:
  "match_at message_pattern s =
     (case delim_parts s of None \<Rightarrow> None
      | Some (ts, a, t4) \<Rightarrow>
          Some (length s - length t4 + lazy_len bracket_at t4, [ts, a, take (lazy_len bracket_at t4) t4]))"
proof (cases "delim_parts s")
  case None
  then show ?thesis by (simp add: match_at_def ms_message)
next
  case (Some p)
  obtain ts a t4 where p: "p = (ts, a, t4)" by (cases p) auto
  let ?k = "lazy_len bracket_at t4"
  from lazy_first[of bracket_at "\<lambda>u. (u, [ts, a] @ [take (length t4 - length u) t4])" t4]
  obtain rest where "ms message_pattern (s, []) =
     (drop ?k t4, [ts, a] @ [take (length t4 - length (drop ?k t4)) t4]) # rest"
    unfolding ms_message Some p by auto
  moreover have "length t4 \<le> length s" using delim_partsD(1)[OF Some[unfolded p]] by simp
  moreover note lazy_len_le[of bracket_at t4]
  ultimately show ?thesis
    unfolding match_at_def Some p by simp
qed

lemma search_None_iff: "search r s = None \<longleftrightarrow> (\<forall>k\<le>length s. match_at r (drop k s) = None)"
proof (induction s)
  case Nil
  show ?case by (auto split: option.splits)
next
  case (Cons x xs)
  show ?case
  proof (cases "match_at r (x # xs)")
    case None
    have "(\<forall>k\<le>length (x # xs). match_at r (drop k (x # xs)) = None) \<longleftrightarrow>
          (\<forall>k\<le>length xs. match_at r (drop k xs) = None)"
    proof
      assume a: "\<forall>k\<le>length (x # xs). match_at r (drop k (x # xs)) = None"
      show "\<forall>k\<le>length xs. match_at r (drop k xs) = None"
      proof (intro allI impI)
        fix k assume "k \<le> length xs"
        then show "match_at r (drop k xs) = None" using a[rule_format, of "Suc k"] by simp
      qed
    next
      assume a: "\<forall>k\<le>length xs. match_at r (drop k xs) = None"
      show "\<forall>k\<le>length (x # xs). match_at r (drop k (x # xs)) = None"
      proof (intro allI impI)
        fix k assume "k \<le> length (x # xs)"
        then show "match_at r (drop k (x # xs)) = None"
          using a None by (cases k) auto
      qed
    qed
    then show ?thesis using None Cons by simp
  next
    case (Some p)
    then have "\<not> (\<forall>k\<le>length (x # xs). match_at r (drop k (x # xs)) = None)"
      by (auto intro: exI[of _ 0])
    then show ?thesis using Some by (auto split: prod.splits)
  qed
qed

lemma search_SomeD:
  assumes "search r s = Some m"
  shows "m_start m \<le> length s"
    and "\<exists>n. match_at r (drop (m_start m) s) = Some (n, m_groups m) \<and> m_end m = m_start m + n"
    and "\<forall>k<m_start m. match_at r (drop k s) = None"
  using assms
proof (induction s arbitrary: m)
  case Nil
  { case 1 then show ?case by (auto split: option.splits) }
  { case 2 then show ?case by (auto split: option.splits) }
  { case 3 then show ?case by (auto split: option.splits) }
next
  case (Cons x xs)
  { case 1
    then show ?case using Cons.IH(1) by (auto split: option.splits simp: shift_def) }
  { case 2
    show ?case
    proof (cases "match_at r (x # xs)")
      case None
      with 2 obtain m' where m': "search r xs = Some m'" "m = shift 1 m'" by auto
      from Cons.IH(2)[OF m'(1)] show ?thesis unfolding m'(2) by (auto simp: shift_def)
    next
      case (Some p)
      with 2 show ?thesis by (auto split: prod.splits)
    qed }
  { case 3
    show ?case
    proof (cases "match_at r (x # xs)")
      case None
      with 3 obtain m' where m': "search r xs = Some m'" "m = shift 1 m'" by auto
      show ?thesis
      proof (intro allI impI)
        fix k assume k: "k < m_start m"
        show "match_at r (drop k (x # xs)) = None"
        proof (cases k)
          case 0
          then show ?thesis using None by simp
        next
          case (Suc j)
          then have "j < m_start m'" using k m'(2) by (simp add: shift_def)
          then show ?thesis using Cons.IH(3)[OF m'(1)] Suc by simp
        qed
      qed
    next
      case (Some p)
      with 3 show ?thesis by (auto split: prod.splits)
    qed }
qed

declare finditer.simps [simp del] sub_empty.simps [simp del]

lemma message_match_pos:
  assumes "match_at message_pattern s = Some (n, g)"
  shows "0 < n" "n \<le> length s" "length g = 3"
proof -
  from assms obtain ts a t4 where dp: "delim_parts s = Some (ts, a, t4)"
    and n: "n = length s - length t4 + lazy_len bracket_at t4"
    and g: "g = [ts, a, take (lazy_len bracket_at t4) t4]"
    unfolding match_at_message by (auto split: option.splits)
  from delim_partsD(1)[OF dp] have s: "s = ''['' @ ts @ ''] '' @ a @ ''\<newline>'' @ t4" .
  have "length s - length t4 > 0" by (subst s) simp
  then show "0 < n" using n by simp
  have "length t4 \<le> length s" by (subst s) simp
  then show "n \<le> length s" using n lazy_len_le[of bracket_at t4] by simp
  show "length g = 3" using g by simp
qed

lemma finditer_message:
  "finditer message_pattern s =
     (case search message_pattern s of None \<Rightarrow> []
      | Some m \<Rightarrow> m # map (shift (m_end m)) (finditer message_pattern (drop (m_end m) s)))"
proof (cases "search message_pattern s")
  case None
  then show ?thesis by (subst finditer.simps) simp
next
  case (Some m)
  from search_SomeD(1,2)[OF Some] obtain n where
    st: "m_start m \<le> length s" and
    n: "match_at message_pattern (drop (m_start m) s) = Some (n, m_groups m)" "m_end m = m_start m + n"
    by blast
  from message_match_pos[OF n(1)] have "0 < n" "n \<le> length (drop (m_start m) s)" by auto
  then have "s \<noteq> []" "max 1 (m_end m) = m_end m" using n(2) by auto
  then show ?thesis using Some by (subst finditer.simps) simp
qed

lemma finditer_message_groups:
  "m \<in> set (finditer message_pattern s) \<Longrightarrow> length (m_groups m) = 3"
proof (induction s arbitrary: m rule: length_induct)
  case (1 s)
  show ?case
  proof (cases "search message_pattern s")
    case None
    then show ?thesis using 1(2) by (subst (asm) finditer_message) simp
  next
    case (Some m0)
    from search_SomeD(1,2)[OF Some] obtain n where
      st: "m_start m0 \<le> length s" and
      n: "match_at message_pattern (drop (m_start m0) s) = Some (n, m_groups m0)" "m_end m0 = m_start m0 + n"
      by blast
    note pos = message_match_pos[OF n(1)]
    from 1(2) have "m = m0 \<or> m \<in> set (map (shift (m_end m0)) (finditer message_pattern (drop (m_end m0) s)))"
      by (subst (asm) finditer_message) (simp add: Some)
    then show ?thesis
    proof
      assume "m = m0" then show ?thesis using pos(3) by simp
    next
      assume "m \<in> set (map (shift (m_end m0)) (finditer message_pattern (drop (m_end m0) s)))"
      then obtain m' where m': "m' \<in> set (finditer message_pattern (drop (m_end m0) s))" "m = shift (m_end m0) m'"
        by auto
      have "length (drop (m_end m0) s) < length s" using pos(1,2) n(2) st by simp
      from 1(1)[rule_format, OF this m'(1)] show ?thesis using m'(2) by (simp add: shift_def)
    qed
  qed
qed

lemma loop_body_groups:
  assumes "length (m_groups m) = 3"
  shows "loop_body md m st =
    \<lparr>content = group m 3,
     messages = messages st @
       [\<lparr>timestamp = (case strptime (group m 1) of Some t \<Rightarrow> isoformat t | None \<Rightarrow> group m 1),
         author = group m 2, msg_text = clean (group m 3),
         metadata = \<lparr>attachments = extract_attachments (group m 3),
                      embeds = extract_embeds (group m 3),
                      reactions = extract_reactions (group m 3),
                      channel = md_channel md, guild = md_guild md\<rparr>\<rparr>]\<rparr>"
proof -
  from assms obtain ts a b where g: "m_groups m = [ts, a, b]"
    by (auto simp: numeral_3_eq_3 length_Suc_conv)
  show ?thesis unfolding loop_body_def g group_def
    by (cases st) (simp add: Let_def g split: option.splits)
qed

lemma foldl_loop_body:
  assumes "\<forall>m\<in>set mts. length (m_groups m) = 3"
  shows "messages (foldl (\<lambda>st m. loop_body md m st) st mts) = messages st @
    map (\<lambda>m. \<lparr>timestamp = (case strptime (group m 1) of Some t \<Rightarrow> isoformat t | None \<Rightarrow> group m 1),
         author = group m 2, msg_text = clean (group m 3),
         metadata = \<lparr>attachments = extract_attachments (group m 3),
                      embeds = extract_embeds (group m 3),
                      reactions = extract_reactions (group m 3),
                      channel = md_channel md, guild = md_guild md\<rparr>\<rparr>) mts"
  using assms
proof (induction mts arbitrary: st)
  case Nil
  then show ?case by simp
next
  case (Cons m mts)
  then show ?case by (simp add: loop_body_groups)
qed

lemma parse_records:
  "fst (parse_discord_data doc) =
    map (\<lambda>m. \<lparr>timestamp = (case strptime (group m 1) of Some t \<Rightarrow> isoformat t | None \<Rightarrow> group m 1),
         author = group m 2, msg_text = clean (group m 3),
         metadata = \<lparr>attachments = extract_attachments (group m 3),
                      embeds = extract_embeds (group m 3),
                      reactions = extract_reactions (group m 3),
                      channel = md_channel (extract_header doc),
                      guild = md_guild (extract_header doc)\<rparr>\<rparr>)
        (finditer message_pattern doc)"
  unfolding parse_discord_data_def Let_def
  by (simp add: foldl_loop_body finditer_message_groups)

section \<open>The records of the parser\<close>

lemma strptime_valid:
  assumes "strptime s = Some t"
  shows "valid_date (year t) (month t) (day t)" "length (isoformat t) = 19"
proof -
  from assms obtain n g where m: "match_at strptime_pattern s = Some (n, g)"
    unfolding strptime_def by (cases "match_at strptime_pattern s") auto
  from assms m obtain gm gd gY gI gM gp where g: "g = [gm, gd, gY, gI, gM, gp]"
    unfolding strptime_def by (auto split: if_splits list.splits)
  from assms m g show "valid_date (year t) (month t) (day t)"
    unfolding strptime_def by (auto split: if_splits simp: Let_def)
  show "length (isoformat t) = 19"
    by (simp add: isoformat_def pad2_def pad4_def)
qed

lemma message_chunk:
  assumes "match_at message_pattern u = Some (n, g)"
  shows "\<exists>ts a body rest.
      u = ''['' @ ts @ ''] '' @ a @ ''\<newline>'' @ body @ rest
    \<and> g = [ts, a, body] \<and> n + length rest = length u
    \<and> is_stamp ts \<and> a \<noteq> [] \<and> CHR ''\<newline>'' \<notin> set a
    \<and> (rest = [] \<or> bracket_at rest)
    \<and> (\<forall>k<length body. \<not> bracket_at (drop k (body @ rest)))"
proof -
  from assms obtain ts a t4 where dp: "delim_parts u = Some (ts, a, t4)"
    and n: "n = length u - length t4 + lazy_len bracket_at t4"
    and g: "g = [ts, a, take (lazy_len bracket_at t4) t4]"
    unfolding match_at_message by (auto split: option.splits)
  let ?k = "lazy_len bracket_at t4"
  note d = delim_partsD[OF dp]
  have kle: "?k \<le> length t4" by (rule lazy_len_le)
  have u: "u = ''['' @ ts @ ''] '' @ a @ ''\<newline>'' @ take ?k t4 @ drop ?k t4"
    using d(1) by simp
  have len: "n + length (drop ?k t4) = length u"
  proof -
    have "length t4 \<le> length u" by (subst d(1)) simp
    then show ?thesis using n kle by simp
  qed
  have stop: "drop ?k t4 = [] \<or> bracket_at (drop ?k t4)"
    using lazy_len_stop[of bracket_at t4] kle by (cases "?k < length t4") auto
  have min: "\<forall>k<length (take ?k t4). \<not> bracket_at (drop k (take ?k t4 @ drop ?k t4))"
    using lazy_len_min[of _ bracket_at t4] by simp
  show ?thesis
    using u g len d(2,3,4) stop min by blast
qed

lemma finditer_message_match:
  assumes "m \<in> set (finditer message_pattern s)"
  shows "\<exists>n. match_at message_pattern (drop (m_start m) s) = Some (n, m_groups m)
             \<and> m_end m = m_start m + n \<and> m_end m \<le> length s"
  using assms
proof (induction s arbitrary: m rule: length_induct)
  case (1 s)
  show ?case
  proof (cases "search message_pattern s")
    case None
    then show ?thesis using 1(2) by (subst (asm) finditer_message) simp
  next
    case (Some m0)
    from search_SomeD(1,2)[OF Some] obtain n where
      st: "m_start m0 \<le> length s" and
      n: "match_at message_pattern (drop (m_start m0) s) = Some (n, m_groups m0)" "m_end m0 = m_start m0 + n"
      by blast
    note pos = message_match_pos[OF n(1)]
    have e: "m_end m0 \<le> length s" "0 < m_end m0" using pos(1,2) n(2) st by auto
    from 1(2) have "m = m0 \<or> m \<in> set (map (shift (m_end m0)) (finditer message_pattern (drop (m_end m0) s)))"
      by (subst (asm) finditer_message) (simp add: Some)
    then show ?thesis
    proof
      assume "m = m0" then show ?thesis using n e by simp
    next
      assume "m \<in> set (map (shift (m_end m0)) (finditer message_pattern (drop (m_end m0) s)))"
      then obtain m' where m': "m' \<in> set (finditer message_pattern (drop (m_end m0) s))" "m = shift (m_end m0) m'"
        by auto
      have "length (drop (m_end m0) s) < length s" using e st by simp
      from 1(1)[rule_format, OF this m'(1)] obtain n' where
        n': "match_at message_pattern (drop (m_start m') (drop (m_end m0) s)) = Some (n', m_groups m')"
          "m_end m' = m_start m' + n'" "m_end m' \<le> length (drop (m_end m0) s)" by blast
      show ?thesis using n' e unfolding m'(2) by (auto simp: shift_def)
    qed
  qed
qed

lemma in_order_shift: "in_order p mts \<Longrightarrow> in_order (p + e) (map (shift e) mts)"
  by (induction mts arbitrary: p) (auto simp: shift_def)

lemma finditer_message_in_order: "in_order 0 (finditer message_pattern s)"
proof (induction s rule: length_induct)
  case (1 s)
  show ?case
  proof (cases "search message_pattern s")
    case None
    then show ?thesis by (subst finditer_message) simp
  next
    case (Some m0)
    from search_SomeD(1,2)[OF Some] obtain n where
      st: "m_start m0 \<le> length s" and
      n: "match_at message_pattern (drop (m_start m0) s) = Some (n, m_groups m0)" "m_end m0 = m_start m0 + n"
      by blast
    note pos = message_match_pos[OF n(1)]
    have e: "m_end m0 \<le> length s" "m_start m0 < m_end m0" using pos(1,2) n(2) st by auto
    have "length (drop (m_end m0) s) < length s" using e st by simp
    from 1[rule_format, OF this] in_order_shift[of 0 _ "m_end m0"]
    have "in_order (m_end m0) (map (shift (m_end m0)) (finditer message_pattern (drop (m_end m0) s)))"
      by simp
    then show ?thesis using e Some by (subst finditer_message) simp
  qed
qed

lemma no_newline_no_match:
  assumes "CHR ''\<newline>'' \<notin> set u"
  shows "match_at message_pattern u = None"
proof (cases "delim_parts u")
  case None
  then show ?thesis by (simp add: match_at_message)
next
  case (Some p)
  obtain ts a t4 where "p = (ts, a, t4)" by (cases p) auto
  with Some have "u = ''['' @ ts @ ''] '' @ a @ ''\<newline>'' @ t4" by (auto dest: delim_partsD(1))
  then have "CHR ''\<newline>'' \<in> set u" by (metis in_set_conv_decomp append_Cons append_Nil append_assoc)
  with assms show ?thesis by simp
qed

lemma bracket_at_delim:
  assumes "is_stamp ts"
  shows "bracket_at (''['' @ ts @ ''] '' @ a)"
  using is_stamp_append[OF assms, of "''] '' @ a"] by (simp add: bracket_at_iff)

lemma unterminated_aux:
  assumes "CHR ''\<newline>'' \<notin> set l" "bracket_at l"
  shows "m \<in> set (finditer message_pattern (pre @ l)) \<Longrightarrow> m_end m \<le> length pre"
proof (induction pre arbitrary: m rule: length_induct)
  case (1 pre)
  show ?case
  proof (cases "search message_pattern (pre @ l)")
    case None
    then show ?thesis using 1(2) by (subst (asm) finditer_message) simp
  next
    case (Some m0)
    from search_SomeD(1,2)[OF Some] obtain n where
      n: "match_at message_pattern (drop (m_start m0) (pre @ l)) = Some (n, m_groups m0)"
         "m_end m0 = m_start m0 + n"
      by blast
    let ?p = "m_start m0"
    have p: "?p < length pre"
    proof (rule ccontr)
      assume "\<not> ?p < length pre"
      then have "drop ?p (pre @ l) = drop (?p - length pre) l" by simp
      moreover have "CHR ''\<newline>'' \<notin> set (drop (?p - length pre) l)"
        using assms(1) by (auto dest: in_set_dropD)
      ultimately show False using n(1) no_newline_no_match by simp
    qed
    define X where "X = drop ?p pre"
    have u: "drop ?p (pre @ l) = X @ l" using p by (simp add: X_def)
    from message_chunk[OF n(1)] obtain ts a body rest where
      c: "X @ l = ''['' @ ts @ ''] '' @ a @ ''\<newline>'' @ body @ rest"
         "n + length rest = length (X @ l)"
         "\<forall>k<length body. \<not> bracket_at (drop k (body @ rest))"
      unfolding u by blast
    define H where "H = ''['' @ ts @ ''] '' @ a @ ''\<newline>''"
    have c1: "X @ l = H @ body @ rest" using c(1) by (simp add: H_def)
    have Hlast: "H \<noteq> []" "last H = CHR ''\<newline>''" by (simp_all add: H_def)
    have HX: "length H \<le> length X"
    proof (rule ccontr)
      assume "\<not> length H \<le> length X"
      then have lt: "length X < length H" by simp
      have "(X @ l) ! (length H - 1) = CHR ''\<newline>''"
        using Hlast by (simp add: c1 nth_append last_conv_nth)
      moreover have "(X @ l) ! (length H - 1) = l ! (length H - 1 - length X)"
      proof -
        have "\<not> length H - 1 < length X" using lt by simp
        then show ?thesis by (simp only: nth_append if_False)
      qed
      moreover have "length H - 1 - length X < length l"
      proof -
        have "length H \<le> length (X @ l)" by (simp add: c1)
        then show ?thesis using lt by simp
      qed
      ultimately have "CHR ''\<newline>'' \<in> set l" by (metis nth_mem)
      then show False using assms(1) by simp
    qed
    define Y where "Y = drop (length H) X"
    have br: "body @ rest = Y @ l"
    proof -
      have "body @ rest = drop (length H) (X @ l)" by (simp add: c1)
      then show ?thesis using HX by (simp add: Y_def)
    qed
    have bY: "length body \<le> length Y"
    proof (rule ccontr)
      assume "\<not> length body \<le> length Y"
      then have "length Y < length body" by simp
      then have "\<not> bracket_at (drop (length Y) (body @ rest))" using c(3) by blast
      then show False using assms(2) by (simp add: br)
    qed
    have nX: "n \<le> length X"
    proof -
      have "length (body @ rest) = length (Y @ l)" by (simp add: br)
      then have "length rest \<ge> length l" using bY by simp
      then show ?thesis using c(2) by simp
    qed
    have e: "m_end m0 \<le> length pre" using nX n(2) p by (simp add: X_def)
    have epos: "0 < m_end m0" using message_match_pos(1)[OF n(1)] n(2) by simp
    from 1(2) have "m = m0 \<or> m \<in> set (map (shift (m_end m0)) (finditer message_pattern (drop (m_end m0) (pre @ l))))"
      by (subst (asm) finditer_message) (simp add: Some)
    then show ?thesis
    proof
      assume "m = m0" then show ?thesis using e by simp
    next
      assume "m \<in> set (map (shift (m_end m0)) (finditer message_pattern (drop (m_end m0) (pre @ l))))"
      then obtain m' where m': "m' \<in> set (finditer message_pattern (drop (m_end m0) pre @ l))"
           "m = shift (m_end m0) m'"
        using e by auto
      have "length (drop (m_end m0) pre) < length pre" using epos p by simp
      from 1(1)[rule_format, OF this m'(1)] show ?thesis using e unfolding m'(2) by (simp add: shift_def)
    qed
  qed
qed


lemma delim_at_match: "delim_at u \<longleftrightarrow> match_at message_pattern u \<noteq> None"
  unfolding delim_at_def match_at_message by (auto split: option.splits)

lemma finditer_message_cover:
  "match_at message_pattern (drop p s) \<noteq> None \<Longrightarrow>
     \<exists>m\<in>set (finditer message_pattern s). m_start m \<le> p \<and> p < m_end m"
proof (induction s arbitrary: p rule: length_induct)
  case (1 s)
  have ple: "p \<le> length s"
  proof (rule ccontr)
    assume "\<not> p \<le> length s"
    then have "drop p s = []" by simp
    then show False using 1(2) no_newline_no_match[of "[]"] by simp
  qed
  show ?case
  proof (cases "search message_pattern s")
    case None
    then show ?thesis using 1(2) ple by (simp add: search_None_iff)
  next
    case (Some m0)
    from search_SomeD[OF Some] obtain n where
      st: "m_start m0 \<le> length s" and
      n: "match_at message_pattern (drop (m_start m0) s) = Some (n, m_groups m0)" "m_end m0 = m_start m0 + n" and
      before: "\<forall>k<m_start m0. match_at message_pattern (drop k s) = None"
      by blast
    note pos = message_match_pos[OF n(1)]
    have e: "m_end m0 \<le> length s" "0 < m_end m0" using pos(1,2) n(2) st by auto
    have fi: "finditer message_pattern s =
        m0 # map (shift (m_end m0)) (finditer message_pattern (drop (m_end m0) s))"
      by (subst finditer_message) (simp add: Some)
    have sp: "m_start m0 \<le> p"
    proof (rule ccontr)
      assume "\<not> m_start m0 \<le> p"
      then have "p < m_start m0" by simp
      from before[rule_format, OF this] show False using 1(2) by simp
    qed
    show ?thesis
    proof (cases "p < m_end m0")
      case True
      then show ?thesis using sp by (simp add: fi)
    next
      case False
      define q where "q = p - m_end m0"
      have p: "p = m_end m0 + q" using False by (simp add: q_def)
      have "length (drop (m_end m0) s) < length s" using e st by simp
      moreover have "match_at message_pattern (drop q (drop (m_end m0) s)) \<noteq> None"
        using 1(2) by (simp add: p add.commute)
      ultimately obtain m' where
        m': "m' \<in> set (finditer message_pattern (drop (m_end m0) s))" "m_start m' \<le> q" "q < m_end m'"
        using 1(1) by blast
      have "shift (m_end m0) m' \<in> set (finditer message_pattern s)" using m'(1) by (simp add: fi)
      moreover have "m_start (shift (m_end m0) m') \<le> p" "p < m_end (shift (m_end m0) m')"
        using m'(2,3) by (simp_all add: shift_def p)
      ultimately show ?thesis by blast
    qed
  qed
qed
section \<open>Counting delimiter lines\<close>

lemma split_acc_char:
  "split_acc [c] acc s = (acc @ takeWhile (\<lambda>x. x \<noteq> c) s) #
     (case dropWhile (\<lambda>x. x \<noteq> c) s of [] \<Rightarrow> [] | _ # r \<Rightarrow> split_acc [c] [] r)"
  by (induction s arbitrary: acc) auto

lemma split_char:
  "split [c] s = takeWhile (\<lambda>x. x \<noteq> c) s #
     (case dropWhile (\<lambda>x. x \<noteq> c) s of [] \<Rightarrow> [] | _ # r \<Rightarrow> split [c] r)"
  unfolding split_def by (subst split_acc_char) simp

lemma is_stamp_no_newline: "is_stamp ts \<Longrightarrow> CHR ''\<newline>'' \<notin> set ts"
  using stamp_rest_split[of ts "[]"] by (auto simp: is_stamp_def)

lemma delim_parts_line:
  assumes "delim_parts u = Some (ts, a, t4)"
  shows "is_delim_line (takeWhile (\<lambda>c. c \<noteq> CHR ''\<newline>'') u)"
proof -
  note d = delim_partsD[OF assms]
  have nl: "\<And>x. x \<in> set (''['' @ ts @ ''] '' @ a) \<Longrightarrow> x \<noteq> CHR ''\<newline>''"
    using d(4,5) by auto
  have "u = (''['' @ ts @ ''] '' @ a) @ CHR ''\<newline>'' # t4" using d(1) by simp
  then have "takeWhile (\<lambda>c. c \<noteq> CHR ''\<newline>'') u = ''['' @ ts @ ''] '' @ a"
    using nl by (simp only: takeWhile_append2) simp
  moreover have "stamp_rest (ts @ ''] '' @ a) = Some (''] '' @ a)" by (rule is_stamp_append[OF d(2)])
  ultimately show ?thesis using d(3) by (simp add: is_delim_line_def)
qed

lemma delim_line_bracket:
  assumes "is_delim_line (takeWhile (\<lambda>c. c \<noteq> CHR ''\<newline>'') u)"
  shows "bracket_at u"
proof -
  define l where "l = takeWhile (\<lambda>c. c \<noteq> CHR ''\<newline>'') u"
  define r where "r = dropWhile (\<lambda>c. c \<noteq> CHR ''\<newline>'') u"
  have u: "u = l @ r" by (simp add: l_def r_def)
  from assms obtain l1 t where l: "l = CHR ''['' # l1" "stamp_rest l1 = Some t" "take 2 t = ''] ''"
    unfolding l_def[symmetric] is_delim_line_def by (auto split: list.splits option.splits)
  from stamp_rest_split[OF l(2)] obtain ts where ts: "l1 = ts @ t" "is_stamp ts" by blast
  have "stamp_rest (ts @ t @ r) = Some (t @ r)" by (rule is_stamp_append[OF ts(2)])
  moreover have "t \<noteq> []" "hd t = CHR '']''" using l(3) by (cases t; auto)+
  ultimately show ?thesis unfolding u l(1) ts(1) by (simp add: bracket_at_iff)
qed

lemma delim_at_bracket: "delim_at u \<Longrightarrow> bracket_at u"
  unfolding delim_at_def using delim_parts_line delim_line_bracket by (cases "delim_parts u") auto

lemma count_lines_wf: "wf_from b s \<Longrightarrow> count_lines b s = count_brackets s"
proof (induction s arbitrary: b)
  case Nil
  show ?case by simp
next
  case (Cons x xs)
  have "(b \<and> is_delim_line (takeWhile (\<lambda>c. c \<noteq> CHR ''\<newline>'') (x # xs))) = bracket_at (x # xs)"
  proof
    assume "b \<and> is_delim_line (takeWhile (\<lambda>c. c \<noteq> CHR ''\<newline>'') (x # xs))"
    then show "bracket_at (x # xs)" using delim_line_bracket by blast
  next
    assume "bracket_at (x # xs)"
    with Cons.prems have "b" "delim_at (x # xs)" by auto
    moreover from this obtain ts a t4 where "delim_parts (x # xs) = Some (ts, a, t4)"
      unfolding delim_at_def by (cases "delim_parts (x # xs)") auto
    then have "is_delim_line (takeWhile (\<lambda>c. c \<noteq> CHR ''\<newline>'') (x # xs))"
      by (rule delim_parts_line)
    ultimately show "b \<and> is_delim_line (takeWhile (\<lambda>c. c \<noteq> CHR ''\<newline>'') (x # xs))"
      by blast
  qed
  moreover have "count_lines (x = CHR ''\<newline>'') xs = count_brackets xs"
    using Cons.IH Cons.prems by simp
  ultimately show ?case by (simp del: takeWhile.simps)
qed

lemma is_delim_line_Nil: "\<not> is_delim_line []"
  by (simp add: is_delim_line_def)

lemma count_lines_False:
  assumes "CHR ''\<newline>'' \<notin> set l"
  shows "count_lines False (l @ CHR ''\<newline>'' # r) = count_lines True r"
    and "count_lines False l = 0"
  using assms by (induction l) auto

lemma count_lines_True:
  assumes "CHR ''\<newline>'' \<notin> set l"
  shows "count_lines True (l @ CHR ''\<newline>'' # r) = (if is_delim_line l then 1 else 0) + count_lines True r"
    and "count_lines True l = (if is_delim_line l then 1 else 0)"
proof -
  have tw: "takeWhile (\<lambda>c. c \<noteq> CHR ''\<newline>'') (l @ CHR ''\<newline>'' # r) = l"
    using assms by (subst takeWhile_append2) auto
  have tw2: "takeWhile (\<lambda>c. c \<noteq> CHR ''\<newline>'') l = l"
    using assms by (auto intro: takeWhile_eq_all_conv[THEN iffD2])
  show "count_lines True (l @ CHR ''\<newline>'' # r) = (if is_delim_line l then 1 else 0) + count_lines True r"
  proof (cases l)
    case Nil
    then show ?thesis by (simp add: is_delim_line_Nil)
  next
    case (Cons x l')
    have x: "(x = CHR ''\<newline>'') = False" using assms Cons by auto
    have "count_lines True ((x # l') @ CHR ''\<newline>'' # r) =
       (if is_delim_line (takeWhile (\<lambda>c. c \<noteq> CHR ''\<newline>'') ((x # l') @ CHR ''\<newline>'' # r)) then 1 else 0)
       + count_lines False (l' @ CHR ''\<newline>'' # r)"
      by (simp del: takeWhile.simps add: x)
    then show ?thesis using tw count_lines_False(1)[of l' r] assms Cons by simp
  qed
  show "count_lines True l = (if is_delim_line l then 1 else 0)"
  proof (cases l)
    case Nil
    then show ?thesis by (simp add: is_delim_line_Nil)
  next
    case (Cons x l')
    have x: "(x = CHR ''\<newline>'') = False" using assms Cons by auto
    have "count_lines True (x # l') =
       (if is_delim_line (takeWhile (\<lambda>c. c \<noteq> CHR ''\<newline>'') (x # l')) then 1 else 0)
       + count_lines False l'"
      by (simp del: takeWhile.simps add: x)
    then show ?thesis using tw2 count_lines_False(2)[of l'] assms Cons by simp
  qed
qed

lemma delimiter_lines_count: "delimiter_lines s = count_lines True s"
proof (induction s rule: length_induct)
  case (1 s)
  define l where "l = takeWhile (\<lambda>c. c \<noteq> CHR ''\<newline>'') s"
  define d where "d = dropWhile (\<lambda>c. c \<noteq> CHR ''\<newline>'') s"
  have s: "s = l @ d" by (simp add: l_def d_def)
  have nl: "CHR ''\<newline>'' \<notin> set l" unfolding l_def by (auto dest: set_takeWhileD)
  have sp: "split ''\<newline>'' s = l # (case d of [] \<Rightarrow> [] | _ # r \<Rightarrow> split ''\<newline>'' r)"
    unfolding l_def d_def by (rule split_char)
  show ?case
  proof (cases d)
    case Nil
    then show ?thesis using sp s count_lines_True(2)[OF nl] by (simp add: delimiter_lines_def)
  next
    case (Cons c r)
    have "c = CHR ''\<newline>''" using hd_dropWhile[of "\<lambda>c. c \<noteq> CHR ''\<newline>''" s] Cons
      unfolding d_def by auto
    then have s': "s = l @ CHR ''\<newline>'' # r" using s Cons by simp
    have "length r < length s" by (subst s') simp
    from 1[rule_format, OF this] have "delimiter_lines r = count_lines True r" .
    then show ?thesis using sp Cons count_lines_True(1)[OF nl, of r]
      unfolding s'[symmetric] by (simp add: delimiter_lines_def)
  qed
qed

lemma wfD:
  "wf_from b s \<Longrightarrow> j < length s \<Longrightarrow> bracket_at (drop j s) \<Longrightarrow>
     delim_at (drop j s) \<and> (0 < j \<longrightarrow> s ! (j - 1) = CHR ''\<newline>'')"
proof (induction s arbitrary: b j)
  case Nil
  then show ?case by simp
next
  case (Cons x xs)
  show ?case
  proof (cases j)
    case 0
    then show ?thesis using Cons.prems by simp
  next
    case (Suc k)
    then have k: "k < length xs" "bracket_at (drop k xs)" using Cons.prems by simp_all
    from Cons.prems(1) have w: "wf_from (x = CHR ''\<newline>'') xs" by simp
    from Cons.IH[OF w k] have d: "delim_at (drop k xs)" "0 < k \<longrightarrow> xs ! (k - 1) = CHR ''\<newline>''"
      by simp_all
    show ?thesis
    proof (cases k)
      case 0
      with k(1,2) w have "x = CHR ''\<newline>''" by (cases xs) auto
      then show ?thesis using d(1) Suc 0 by simp
    next
      case (Suc k')
      then show ?thesis using d \<open>j = Suc k\<close> by simp
    qed
  qed
qed

lemma wf_drop: "wf_from b s \<Longrightarrow> \<exists>b'. wf_from b' (drop k s)"
proof (induction k arbitrary: b s)
  case 0
  then show ?case by auto
next
  case (Suc k)
  then show ?case by (cases s) auto
qed

lemma count_brackets_skip:
  "(\<forall>j<k. \<not> bracket_at (drop j s)) \<Longrightarrow> k \<le> length s \<Longrightarrow> count_brackets s = count_brackets (drop k s)"
proof (induction k arbitrary: s)
  case 0
  then show ?case by simp
next
  case (Suc k)
  then obtain x xs where s: "s = x # xs" by (cases s) auto
  from Suc.prems(1) have "\<not> bracket_at (drop 0 s)" by blast
  then have nb: "\<not> bracket_at (x # xs)" by (simp add: s)
  have "\<forall>j<k. \<not> bracket_at (drop j xs)"
  proof (intro allI impI)
    fix j assume "j < k"
    then have "\<not> bracket_at (drop (Suc j) s)" using Suc.prems(1) by blast
    then show "\<not> bracket_at (drop j xs)" by (simp add: s)
  qed
  from Suc.IH[OF this] Suc.prems(2) have "count_brackets xs = count_brackets (drop k xs)" by (simp add: s)
  then show ?case using nb by (simp add: s)
qed

lemma match_None_no_delim: "match_at message_pattern u = None \<Longrightarrow> \<not> delim_at u"
  by (auto simp: match_at_message delim_at_def split: option.splits prod.splits)

lemma finditer_count_brackets:
  "wf_from b s \<Longrightarrow> length (finditer message_pattern s) = count_brackets s"
proof (induction s arbitrary: b rule: length_induct)
  case (1 s)
  have nob: "\<not> bracket_at (drop j s)" if "j < length s" "match_at message_pattern (drop j s) = None" for j
    using wfD[OF 1(2) that(1)] match_None_no_delim[OF that(2)] by blast
  show ?case
  proof (cases "search message_pattern s")
    case None
    then have "\<forall>k\<le>length s. match_at message_pattern (drop k s) = None"
      by (simp add: search_None_iff)
    then have "\<forall>j<length s. \<not> bracket_at (drop j s)" using nob by simp
    from count_brackets_skip[OF this] have "count_brackets s = 0" by simp
    then show ?thesis using None by (subst finditer_message) simp
  next
    case (Some m0)
    from search_SomeD[OF Some] obtain n where
      st: "m_start m0 \<le> length s" and
      n: "match_at message_pattern (drop (m_start m0) s) = Some (n, m_groups m0)"
         "m_end m0 = m_start m0 + n" and
      before: "\<forall>k<m_start m0. match_at message_pattern (drop k s) = None"
      by blast
    let ?p = "m_start m0"
    define u where "u = drop ?p s"
    have "\<forall>j<?p. \<not> bracket_at (drop j s)" using before nob st by simp
    from count_brackets_skip[OF this st] have c1: "count_brackets s = count_brackets u"
      by (simp add: u_def)
    from wf_drop[OF 1(2)] obtain b' where wu: "wf_from b' u" unfolding u_def by blast
    from message_chunk[OF n(1)] obtain ts a body rest where
      c: "u = ''['' @ ts @ ''] '' @ a @ ''\<newline>'' @ body @ rest"
         "n + length rest = length u" "is_stamp ts" "CHR ''\<newline>'' \<notin> set a"
         "\<forall>k<length body. \<not> bracket_at (drop k (body @ rest))"
      unfolding u_def by blast
    define H where "H = ''['' @ ts @ ''] '' @ a"
    have uH: "u = H @ CHR ''\<newline>'' # body @ rest" using c(1) by (simp add: H_def)
    have Hnl: "CHR ''\<newline>'' \<notin> set H"
      using c(4) is_stamp_no_newline[OF c(3)] by (simp add: H_def)
    have Hne: "H \<noteq> []" by (simp add: H_def)
    have nlen: "n = length H + 1 + length body" using c(2) by (simp add: uH)
    have bu: "bracket_at u" unfolding c(1) using bracket_at_delim[OF c(3)] by simp
    have inner: "\<not> bracket_at (drop j u)" if j: "0 < j" "j < n" for j
    proof (cases "j \<le> length H")
      case True
      show ?thesis
      proof
        assume "bracket_at (drop j u)"
        moreover have "j < length u" using j c(2) by simp
        ultimately have "u ! (j - 1) = CHR ''\<newline>''" using wfD[OF wu] j(1) by blast
        moreover have jH: "j - 1 < length H" using True j(1) by simp
        then have "u ! (j - 1) = H ! (j - 1)" by (simp add: uH nth_append)
        moreover have "H ! (j - 1) \<in> set H" using jH by (rule nth_mem)
        ultimately show False using Hnl by simp
      qed
    next
      case False
      define B where "B = body @ rest"
      define k where "k = j - (length H + 1)"
      have jk: "j = length (H @ ''\<newline>'') + k" using False by (simp add: k_def)
      have "u = (H @ ''\<newline>'') @ B" by (simp add: uH B_def)
      then have "drop j u = drop k B" unfolding jk by (simp only: drop_append length_append) simp
      then have "drop j u = drop (j - (length H + 1)) (body @ rest)" by (simp add: B_def k_def)
      moreover have "j - (length H + 1) < length body" using False j(2) nlen by simp
      ultimately show ?thesis using c(5) by simp
    qed
    have "u \<noteq> []" using uH by simp
    then obtain x xs where ux: "u = x # xs" by (cases u) blast+
    have "\<forall>j<n - 1. \<not> bracket_at (drop j xs)"
    proof (intro allI impI)
      fix j assume "j < n - 1"
      then have "\<not> bracket_at (drop (Suc j) u)" using inner[of "Suc j"] by simp
      then show "\<not> bracket_at (drop j xs)" by (simp add: ux)
    qed
    moreover have "n - 1 \<le> length xs" using c(2) ux by simp
    ultimately have "count_brackets xs = count_brackets (drop (n - 1) xs)"
      by (rule count_brackets_skip)
    moreover have "drop (n - 1) xs = drop n u" using nlen by (simp add: ux)
    ultimately have c2: "count_brackets u = 1 + count_brackets (drop n u)"
      using bu by (simp add: ux)
    have dr: "drop n u = drop (m_end m0) s" by (simp add: u_def n(2) add.commute)
    have "length (drop (m_end m0) s) < length s"
      using n(2) nlen st c(2) by (simp add: u_def)
    moreover from wf_drop[OF 1(2)] obtain b'' where "wf_from b'' (drop (m_end m0) s)" by blast
    ultimately have "length (finditer message_pattern (drop (m_end m0) s)) = count_brackets (drop (m_end m0) s)"
      using 1(1) by blast
    then show ?thesis using c1 c2 dr Some by (subst finditer_message) simp
  qed
qed

section \<open>The header pattern\<close>

lemma lazy_rests_last: "lazy_rests p s \<noteq> [] \<and> last (lazy_rests p s) = dropWhile p s"
  by (induction s) auto

lemma rev_last_butlast: "L \<noteq> [] \<Longrightarrow> rev L = last L # rev (butlast L)"
  by (induction L rule: rev_induct) simp_all

lemma greedy_plus_hd:
  assumes "s \<noteq> []" "p (hd s)"
  shows "\<exists>rest. butlast (rev (lazy_rests p s)) = dropWhile p s # rest"
proof -
  from assms obtain x xs where s: "s = x # xs" "p x" by (cases s) auto
  have "butlast (rev (lazy_rests p s)) = rev (lazy_rests p xs)" using s by simp
  also have "\<dots> = last (lazy_rests p xs) # rev (butlast (lazy_rests p xs))"
    using lazy_rests_last[of p xs] by (intro rev_last_butlast) simp
  finally have "butlast (rev (lazy_rests p s)) = dropWhile p s # rev (butlast (lazy_rests p xs))"
    using lazy_rests_last[of p xs] s by simp
  then show ?thesis by blast
qed

lemma greedy_plus_empty:
  assumes "s = [] \<or> \<not> p (hd s)"
  shows "butlast (rev (lazy_rests p s)) = []"
  using assms by (cases s) auto

lemma ms_line_Cons:
  assumes "lit \<noteq> []" "hd lit = CHR ''\<newline>''"
  shows "ms (Cat (Grp (Star NotNL) # Lit lit # rs)) (s, g) =
      ms (Cat (Lit lit # rs)) (dropWhile (\<lambda>c. c \<noteq> CHR ''\<newline>'') s, g @ [takeWhile (\<lambda>c. c \<noteq> CHR ''\<newline>'') s])"
proof -
  have eq: "cls_mem NotNL = (\<lambda>c. c \<noteq> CHR ''\<newline>'')" by (simp add: fun_eq_iff)
  obtain l' where lit: "lit = CHR ''\<newline>'' # l'" using assms by (cases lit) auto
  have "ms (Cat (Grp (Star NotNL) # Lit lit # rs)) (s, g) =
      ms (Cat (Lit lit # rs)) (dropWhile (cls_mem NotNL) s, g @ [takeWhile (cls_mem NotNL) s])"
    unfolding lit by (rule ms_GrpStar_Cons, rule ms_Lit_hd) simp_all
  then show ?thesis unfolding eq .
qed

lemma ms_eqs_Cons:
  assumes "lit \<noteq> []" "hd lit \<noteq> CHR ''=''"
  shows "ms (Cat (Plus (OneOf ''='') # Lit lit # rs)) (s, g) =
     (if s \<noteq> [] \<and> hd s = CHR ''='' then ms (Cat (Lit lit # rs)) (dropWhile (\<lambda>c. c = CHR ''='') s, g) else [])"
proof -
  have eq: "cls_mem (OneOf ''='') = (\<lambda>c. c = CHR ''='')" by (simp add: fun_eq_iff)
  obtain x l' where lit: "lit = x # l'" "x \<noteq> CHR ''=''" using assms by (cases lit) auto
  have "ms (Cat (Plus (OneOf ''='') # Lit lit # rs)) (s, g) =
     (if s \<noteq> [] \<and> cls_mem (OneOf ''='') (hd s)
      then ms (Cat (Lit lit # rs)) (dropWhile (cls_mem (OneOf ''='')) s, g) else [])"
    unfolding lit(1) by (rule ms_Plus_Cons, rule ms_Lit_hd) (use lit(2) in simp_all)
  then show ?thesis unfolding eq .
qed

lemma concat_map_single: "concat (map (\<lambda>x. [f x]) xs) = map f xs"
  by (induction xs) auto

lemma ms_eqs_end:
  "ms (Cat [Plus (OneOf ''='')]) (s, g) =
     map (\<lambda>t. (t, g)) (butlast (rev (lazy_rests (\<lambda>c. c = CHR ''='') s)))"
proof -
  have eq: "cls_mem (OneOf ''='') = (\<lambda>c. c = CHR ''='')" by (simp add: fun_eq_iff)
  have "ms (Cat [Plus (OneOf ''='')]) (s, g) =
     concat (map (\<lambda>t. [(t, g)]) (butlast (rev (lazy_rests (\<lambda>c. c = CHR ''='') s))))"
    by (simp add: eq o_def del: butlast_rev)
  then show ?thesis by (simp only: concat_map_single)
qed


lemma ms_field:
  assumes "lit2 \<noteq> []" "hd lit2 = CHR ''\<newline>''"
  shows "ms (Cat (Lit lit # Grp (Star NotNL) # Lit lit2 # rs)) (s, g) =
     (case line_after lit s of None \<Rightarrow> []
      | Some (v, r) \<Rightarrow> ms (Cat (Lit lit2 # rs)) (r, g @ [v]))"
  by (simp add: ms_Lit_Cons ms_line_Cons[OF assms] line_after_def del: ms.simps(7))

lemma ms_closing:
  "ms (Cat [Lit ''\<newline>='', Plus (OneOf ''='')]) (r3, g) =
     (if take 3 r3 = ''\<newline>==''
      then map (\<lambda>t. (t, g)) (butlast (rev (lazy_rests (\<lambda>c. c = CHR ''='') (drop 2 r3))))
      else [])"
proof -
  have 1: "ms (Cat [Lit ''\<newline>='', Plus (OneOf ''='')]) (r3, g) =
     (if take 2 r3 = ''\<newline>=''
      then map (\<lambda>t. (t, g)) (butlast (rev (lazy_rests (\<lambda>c. c = CHR ''='') (drop 2 r3))))
      else [])"
    by (simp only: ms_Lit_Cons ms_eqs_end) (simp add: numeral_2_eq_2)
  show ?thesis
  proof (cases "take 3 r3 = ''\<newline>==''")
    case True
    have "take 2 r3 = take 2 (take 3 r3)" by simp
    also have "\<dots> = ''\<newline>=''" unfolding True by (simp add: numeral_2_eq_2)
    finally have "take 2 r3 = ''\<newline>=''" .
    then show ?thesis using True 1 by simp
  next
    case False
    show ?thesis
    proof (cases "take 2 r3 = ''\<newline>=''")
      case F2: False
      then show ?thesis using False 1 by simp
    next
      case True
      have "drop 2 r3 = [] \<or> hd (drop 2 r3) \<noteq> CHR ''=''"
      proof (rule ccontr)
        assume "\<not> (drop 2 r3 = [] \<or> hd (drop 2 r3) \<noteq> CHR ''='')"
        then obtain d where d: "drop 2 r3 = CHR ''='' # d" by (cases "drop 2 r3") auto
        have "r3 = take 2 r3 @ drop 2 r3" by simp
        then have "r3 = ''\<newline>=='' @ d" using True d by simp
        then show False using False by simp
      qed
      then have "butlast (rev (lazy_rests (\<lambda>c. c = CHR ''='') (drop 2 r3))) = []"
        by (intro greedy_plus_empty) auto
      then show ?thesis using False 1 by simp
    qed
  qed
qed


lemma ms_header_form:
  "ms header_pattern (s, []) =
    (if take 2 s = ''=='' then
      (case line_after ''\<newline>Guild: '' (dropWhile (\<lambda>c. c = CHR ''='') s) of
         None \<Rightarrow> []
       | Some (g, r1) \<Rightarrow>
          (case line_after ''\<newline>Channel: '' r1 of
             None \<Rightarrow> []
           | Some (c, r2) \<Rightarrow>
              (case line_after ''\<newline>Topic: '' r2 of
                 None \<Rightarrow> []
               | Some (t, r3) \<Rightarrow>
                   if take 3 r3 = ''\<newline>==''
                   then map (\<lambda>u. (u, [g, c, t]))
                          (butlast (rev (lazy_rests (\<lambda>c. c = CHR ''='') (drop 2 r3))))
                   else [])))
     else [])"
proof -
  have n1: "''\<newline>Channel: '' \<noteq> []" "hd ''\<newline>Channel: '' = CHR ''\<newline>''" by simp_all
  have n2: "''\<newline>Topic: '' \<noteq> []" "hd ''\<newline>Topic: '' = CHR ''\<newline>''" by simp_all
  have n3: "''\<newline>='' \<noteq> []" "hd ''\<newline>='' = CHR ''\<newline>''" by simp_all
  have n0: "''\<newline>Guild: '' \<noteq> []" "hd ''\<newline>Guild: '' \<noteq> CHR ''=''" by simp_all
  note f1 = ms_field[OF n1]
  note f2 = ms_field[OF n2]
  note f3 = ms_field[OF n3]
  note e1 = ms_eqs_Cons[OF n0]
  have tail: "ms (Cat [Lit ''\<newline>Guild: '', Grp (Star NotNL),
     Lit ''\<newline>Channel: '', Grp (Star NotNL),
     Lit ''\<newline>Topic: '', Grp (Star NotNL),
     Lit ''\<newline>='', Plus (OneOf ''='')]) (r0, []) =
      (case line_after ''\<newline>Guild: '' r0 of
         None \<Rightarrow> []
       | Some (g, r1) \<Rightarrow>
          (case line_after ''\<newline>Channel: '' r1 of
             None \<Rightarrow> []
           | Some (c, r2) \<Rightarrow>
              (case line_after ''\<newline>Topic: '' r2 of
                 None \<Rightarrow> []
               | Some (t, r3) \<Rightarrow>
                   if take 3 r3 = ''\<newline>==''
                   then map (\<lambda>u. (u, [g, c, t]))
                          (butlast (rev (lazy_rests (\<lambda>c. c = CHR ''='') (drop 2 r3))))
                   else [])))" for r0
    by (simp only: f1 f2 f3 ms_closing append_Nil append_Cons
          split: option.split prod.split)
  have head: "ms header_pattern (s, []) =
     (if take 2 s = ''=='' then
        ms (Cat [Lit ''\<newline>Guild: '', Grp (Star NotNL),
          Lit ''\<newline>Channel: '', Grp (Star NotNL),
          Lit ''\<newline>Topic: '', Grp (Star NotNL),
          Lit ''\<newline>='', Plus (OneOf ''='')]) (dropWhile (\<lambda>c. c = CHR ''='') s, [])
      else [])"
  proof (cases s)
    case Nil
    then show ?thesis unfolding header_pattern_def by (simp add: ms_Lit_Cons del: ms.simps(7))
  next
    case (Cons x xs)
    show ?thesis
    proof (cases xs)
      case Nil
      then show ?thesis unfolding header_pattern_def Cons
        by (simp only: ms_Lit_Cons e1) (simp add: numeral_2_eq_2)
    next
      case (Cons y ys)
      then show ?thesis unfolding header_pattern_def \<open>s = x # xs\<close>
        by (simp only: ms_Lit_Cons e1) (auto simp: numeral_2_eq_2)
    qed
  qed
  show ?thesis unfolding head tail ..
qed


lemma closing_hd:
  assumes "take 3 r3 = ''\<newline>==''"
  shows "\<exists>rest. butlast (rev (lazy_rests (\<lambda>c. c = CHR ''='') (drop 2 r3))) =
           dropWhile (\<lambda>c. c = CHR ''='') (drop 1 r3) # rest"
proof -
  have "r3 = take 3 r3 @ drop 3 r3" by simp
  then have r3: "r3 = ''\<newline>=='' @ drop 3 r3" using assms by simp
  have d2: "drop 2 r3 = CHR ''='' # drop 3 r3" by (subst r3) (simp add: numeral_2_eq_2)
  have d1: "drop 1 r3 = CHR ''='' # CHR ''='' # drop 3 r3" by (subst r3) simp
  have "dropWhile (\<lambda>c. c = CHR ''='') (drop 1 r3) = dropWhile (\<lambda>c. c = CHR ''='') (drop 2 r3)"
    unfolding d1 d2 by simp
  moreover have "drop 2 r3 \<noteq> []" "hd (drop 2 r3) = CHR ''=''" unfolding d2 by simp_all
  ultimately show ?thesis
    using greedy_plus_hd[of "drop 2 r3" "\<lambda>c. c = CHR ''=''"] by simp
qed

lemma match_at_header:
  "match_at header_pattern s =
     (case banner_parts s of None \<Rightarrow> None
      | Some (g, c, t, after) \<Rightarrow> Some (length s - length after, [g, c, t]))"
proof (cases "take 2 s = ''==''")
  case False
  then show ?thesis by (simp add: match_at_def ms_header_form banner_parts_def)
next
  case eq: True
  show ?thesis
  proof (cases "line_after ''\<newline>Guild: '' (dropWhile (\<lambda>c. c = CHR ''='') s)")
    case None
    then show ?thesis using eq by (simp add: match_at_def ms_header_form banner_parts_def)
  next
    case (Some p1)
    obtain g r1 where p1: "p1 = (g, r1)" by (cases p1) auto
    show ?thesis
    proof (cases "line_after ''\<newline>Channel: '' r1")
      case None
      then show ?thesis using eq Some p1 by (simp add: match_at_def ms_header_form banner_parts_def)
    next
      case S2: (Some p2)
      obtain c r2 where p2: "p2 = (c, r2)" by (cases p2) auto
      show ?thesis
      proof (cases "line_after ''\<newline>Topic: '' r2")
        case None
        then show ?thesis using eq Some p1 S2 p2
          by (simp add: match_at_def ms_header_form banner_parts_def)
      next
        case S3: (Some p3)
        obtain t r3 where p3: "p3 = (t, r3)" by (cases p3) auto
        show ?thesis
        proof (cases "take 3 r3 = ''\<newline>==''")
          case False
          then show ?thesis using eq Some p1 S2 p2 S3 p3
            by (simp add: match_at_def ms_header_form banner_parts_def)
        next
          case True
          from closing_hd[OF True] obtain rest where
            "butlast (rev (lazy_rests (\<lambda>c. c = CHR ''='') (drop 2 r3))) =
               dropWhile (\<lambda>c. c = CHR ''='') (drop 1 r3) # rest" by blast
          then show ?thesis using eq Some p1 S2 p2 S3 p3 True
            by (simp add: match_at_def ms_header_form banner_parts_def del: butlast_rev)
        qed
      qed
    qed
  qed
qed

lemma search_first:
  assumes "k \<le> length s" "match_at r (drop k s) = Some (n, g)"
    "\<forall>j<k. match_at r (drop j s) = None"
  shows "search r s = Some \<lparr>m_start = k, m_end = k + n, m_groups = g\<rparr>"
proof (cases "search r s")
  case None
  then show ?thesis using assms(1,2) by (simp add: search_None_iff)
next
  case (Some m)
  from search_SomeD[OF Some] obtain n' where
    m: "match_at r (drop (m_start m) s) = Some (n', m_groups m)" "m_end m = m_start m + n'"
       "\<forall>j<m_start m. match_at r (drop j s) = None" by blast
  have "m_start m = k"
  proof (rule ccontr)
    assume "m_start m \<noteq> k"
    then consider "m_start m < k" | "k < m_start m" by linarith
    then show False using assms(2,3) m(1,3) by cases auto
  qed
  then show ?thesis using Some m(1,2) assms(2) by (cases m) simp
qed


lemma line_afterI:
  assumes "CHR ''\<newline>'' \<notin> set v"
  shows "line_after lit (lit @ v @ CHR ''\<newline>'' # r) = Some (v, CHR ''\<newline>'' # r)"
proof -
  have "takeWhile (\<lambda>c. c \<noteq> CHR ''\<newline>'') (v @ CHR ''\<newline>'' # r) = v"
    using assms by (subst takeWhile_append2) auto
  moreover have "dropWhile (\<lambda>c. c \<noteq> CHR ''\<newline>'') (v @ CHR ''\<newline>'' # r) = CHR ''\<newline>'' # r"
    using assms by (subst dropWhile_append2) auto
  ultimately show ?thesis by (simp add: line_after_def)
qed

lemma banner_partsI:
  assumes "2 \<le> n" "CHR ''\<newline>'' \<notin> set g" "CHR ''\<newline>'' \<notin> set c" "CHR ''\<newline>'' \<notin> set t"
  shows "banner_parts (replicate n CHR ''='' @ ''\<newline>Guild: '' @ g @ ''\<newline>Channel: '' @ c
            @ ''\<newline>Topic: '' @ t @ ''\<newline>=='' @ rest)
         = Some (g, c, t, dropWhile (\<lambda>c. c = CHR ''='') rest)"
proof -
  let ?r3 = "''\<newline>=='' @ rest"
  let ?r2 = "''\<newline>Topic: '' @ t @ ?r3"
  let ?r1 = "''\<newline>Channel: '' @ c @ ?r2"
  let ?r0 = "''\<newline>Guild: '' @ g @ ?r1"
  let ?s = "replicate n CHR ''='' @ ?r0"
  obtain n' where n: "n = Suc (Suc n')" using assms(1) by (metis add_2_eq_Suc le_Suc_ex)
  have t2: "take 2 ?s = ''==''" unfolding n by (simp add: numeral_2_eq_2)
  have d0: "dropWhile (\<lambda>c. c = CHR ''='') ?s = ?r0"
    by (subst dropWhile_append2) auto
  have 1: "line_after ''\<newline>Guild: '' ?r0 = Some (g, ?r1)"
    using line_afterI[OF assms(2), of "''\<newline>Guild: ''" "''Channel: '' @ c @ ?r2"] by simp
  have 2: "line_after ''\<newline>Channel: '' ?r1 = Some (c, ?r2)"
    using line_afterI[OF assms(3), of "''\<newline>Channel: ''" "''Topic: '' @ t @ ?r3"] by simp
  have 3: "line_after ''\<newline>Topic: '' ?r2 = Some (t, ?r3)"
    using line_afterI[OF assms(4), of "''\<newline>Topic: ''" "''=='' @ rest"] by simp
  have 4: "take 3 ?r3 = ''\<newline>==''" by (simp add: numeral_3_eq_3)
  have 5: "dropWhile (\<lambda>c. c = CHR ''='') (drop 1 ?r3) = dropWhile (\<lambda>c. c = CHR ''='') rest" by simp
  show ?thesis
    unfolding banner_parts_def by (simp only: t2 d0 1 2 3 4 5 option.case prod.case if_True if_False not_True_eq_False refl)
qed


section \<open>The section patterns\<close>












lemma split_line:
  assumes "CHR ''\<newline>'' \<notin> set l"
  shows "split ''\<newline>'' (l @ CHR ''\<newline>'' # r) = l # split ''\<newline>'' r"
    and "split ''\<newline>'' l = [l]"
proof -
  have tw: "takeWhile (\<lambda>c. c \<noteq> CHR ''\<newline>'') (l @ CHR ''\<newline>'' # r) = l"
    using assms by (subst takeWhile_append2) auto
  have dw: "dropWhile (\<lambda>c. c \<noteq> CHR ''\<newline>'') (l @ CHR ''\<newline>'' # r) = CHR ''\<newline>'' # r"
    using assms by (subst dropWhile_append2) auto
  show "split ''\<newline>'' (l @ CHR ''\<newline>'' # r) = l # split ''\<newline>'' r"
    by (subst split_char) (simp only: tw dw list.case)
  have tw2: "takeWhile (\<lambda>c. c \<noteq> CHR ''\<newline>'') l = l"
    using assms by (auto intro: takeWhile_eq_all_conv[THEN iffD2])
  have dw2: "dropWhile (\<lambda>c. c \<noteq> CHR ''\<newline>'') l = []"
    using assms by auto
  show "split ''\<newline>'' l = [l]"
    by (subst split_char) (simp only: tw2 dw2 list.case)
qed

lemma line_decomp:
  obtains (one) "CHR ''\<newline>'' \<notin> set s"
  | (more) l r where "s = l @ CHR ''\<newline>'' # r" "CHR ''\<newline>'' \<notin> set l"
proof (cases "CHR ''\<newline>'' \<in> set s")
  case False
  then show ?thesis by (rule one)
next
  case True
  then obtain l r where "s = l @ CHR ''\<newline>'' # r" "CHR ''\<newline>'' \<notin> set l"
    by (meson split_list_first)
  then show ?thesis by (rule more)
qed








section \<open>The removal of the sections\<close>

lemma ms_removal:
  "ms (removal_pattern marker) (s, []) =
     (if take (length marker) s = marker
      then concat (map (\<lambda>u. if boundary u \<or> u = [] then [(u, [])] else [])
                    (lazy_rests (\<lambda>_. True) (drop (length marker) s)))
      else [])"
proof -
  have eq: "cls_mem AnyChar = (\<lambda>_. True)" by (simp add: fun_eq_iff)
  have "\<And>u g'. ms (Cat [Ahead (Alt (Lit ''\<newline>\<newline>'') (Alt (Lit ''\<newline>['') EndZ))]) (u, g') =
          (if boundary u \<or> u = [] then [(u, g')] else [])"
    by (auto simp: boundary_def numeral_2_eq_2)
  then show ?thesis
    unfolding removal_pattern_def
    by (simp add: ms_Lit_Cons eq o_def del: ms.simps(7) add: ms.simps(7)[of "LazyStar AnyChar"])
qed

lemma match_at_removal:
  "match_at (removal_pattern marker) s =
     (if take (length marker) s = marker
      then Some (length marker + lazy_len boundary (drop (length marker) s), [])
      else None)"
proof (cases "take (length marker) s = marker")
  case False
  then show ?thesis by (simp add: match_at_def ms_removal)
next
  case True
  let ?t = "drop (length marker) s"
  let ?k = "lazy_len boundary ?t"
  from lazy_first[of boundary "\<lambda>u. (u, [])" ?t] obtain rest where
    "ms (removal_pattern marker) (s, []) = (drop ?k ?t, []) # rest"
    unfolding ms_removal using True by auto
  moreover have "length marker \<le> length s"
    using True by (metis length_take min.cobounded1)
  moreover note lazy_len_le[of boundary ?t]
  ultimately show ?thesis using True by (simp add: match_at_def)
qed

lemma sub_removal:
  assumes "marker \<noteq> []"
  shows "sub_empty (removal_pattern marker) s =
     (case search (removal_pattern marker) s of
        None \<Rightarrow> s
      | Some m \<Rightarrow> take (m_start m) s @ sub_empty (removal_pattern marker) (drop (m_end m) s))"
proof (cases "search (removal_pattern marker) s")
  case None
  then show ?thesis by (subst sub_empty.simps) simp
next
  case (Some m)
  from search_SomeD(1,2)[OF Some] obtain n where
    st: "m_start m \<le> length s" and
    n: "match_at (removal_pattern marker) (drop (m_start m) s) = Some (n, m_groups m)"
       "m_end m = m_start m + n"
    by blast
  from n(1) have t: "take (length marker) (drop (m_start m) s) = marker" "length marker \<le> n"
    unfolding match_at_removal by (auto split: if_splits)
  then have "drop (m_start m) s \<noteq> []" using assms by auto
  then have "s \<noteq> []" by auto
  moreover have "0 < m_end m" using t(2) n(2) assms by (cases marker) auto
  ultimately show ?thesis using Some by (subst sub_empty.simps) simp
qed

lemma sublist_split_boundary:
  assumes "c \<notin> set X" "B = [] \<or> hd B = c" "sublist X (A @ B)"
  shows "sublist X A \<or> sublist X B"
proof -
  from assms(3) obtain ps ss where e: "A @ B = ps @ X @ ss" unfolding sublist_def by blast
  then consider us where "A = ps @ us" "us @ B = X @ ss" | us where "A @ us = ps" "B = us @ X @ ss"
    by (auto simp: append_eq_append_conv2)
  then show ?thesis
  proof cases
    case 2
    then show ?thesis unfolding sublist_def by blast
  next
    case 1
    from 1(2) consider vs where "us = X @ vs" "vs @ B = ss" | vs where "us @ vs = X" "B = vs @ ss"
      by (auto simp: append_eq_append_conv2)
    then show ?thesis
    proof cases
      case 1
      then show ?thesis using \<open>A = ps @ us\<close> unfolding sublist_def by auto
    next
      case 2
      show ?thesis
      proof (cases vs)
        case Nil
        then have "A = ps @ X @ []" using 2 \<open>A = ps @ us\<close> by simp
        then show ?thesis unfolding sublist_def by blast
      next
        case (Cons v vs')
        then have "B \<noteq> []" "hd B = v" using 2(2) by auto
        then have "v = c" using assms(2) by auto
        moreover have "v \<in> set X" using 2(1) Cons by auto
        ultimately show ?thesis using assms(1) by simp
      qed
    qed
  qed
qed

lemma sublist_of_take:
  assumes "sublist X (take p s)"
  shows "sublist X s"
proof -
  from assms obtain ps ss where "take p s = ps @ X @ ss" unfolding sublist_def by blast
  then have "s = ps @ X @ (ss @ drop p s)" by (metis append_take_drop_id append_assoc)
  then show ?thesis unfolding sublist_def by blast
qed

lemma sublist_of_drop:
  assumes "sublist X (drop e s)"
  shows "sublist X s"
proof -
  from assms obtain ps ss where "drop e s = ps @ X @ ss" unfolding sublist_def by blast
  then have "s = (take e s @ ps) @ X @ ss" by (metis append_take_drop_id append_assoc)
  then show ?thesis unfolding sublist_def by blast
qed

lemma sub_removal_Nil: "marker \<noteq> [] \<Longrightarrow> sub_empty (removal_pattern marker) [] = []"
  by (subst sub_empty.simps) (simp add: match_at_removal)

lemma sub_removal_hd:
  assumes "marker \<noteq> []" "CHR ''\<newline>'' \<notin> set marker" "s \<noteq> []" "hd s = CHR ''\<newline>''"
  shows "sub_empty (removal_pattern marker) s \<noteq> [] \<and> hd (sub_empty (removal_pattern marker) s) = CHR ''\<newline>''"
proof (cases "search (removal_pattern marker) s")
  case None
  then show ?thesis using assms(3,4) by (subst (1 2) sub_removal[OF assms(1)]) simp
next
  case (Some m)
  from search_SomeD(2)[OF Some] obtain n where
    n: "match_at (removal_pattern marker) (drop (m_start m) s) = Some (n, m_groups m)" by blast
  have "m_start m \<noteq> 0"
  proof
    assume "m_start m = 0"
    with n have "take (length marker) s = marker" unfolding match_at_removal by (auto split: if_splits)
    then have "hd marker = hd s" using assms(1,3) by (cases marker; cases s) auto
    then show False using assms(1,2,4) by (cases marker) auto
  qed
  then obtain p where p: "m_start m = Suc p" by (cases "m_start m") auto
  obtain x xs where s: "s = x # xs" using assms(3) by (cases s) auto
  show ?thesis using Some assms(4)
    by (subst (1 2) sub_removal[OF assms(1)]) (simp add: p s)
qed

lemma sub_removal_markers:
  assumes "marker \<noteq> []" "CHR ''\<newline>'' \<notin> set marker"
  shows "\<not> sublist marker (sub_empty (removal_pattern marker) s)
    \<and> (\<forall>X. CHR ''\<newline>'' \<notin> set X \<and> \<not> sublist X s \<longrightarrow> \<not> sublist X (sub_empty (removal_pattern marker) s))"
proof (induction s rule: length_induct)
  case (1 s)
  let ?r = "removal_pattern marker"
  show ?case
  proof (cases "search ?r s")
    case None
    then have nm: "\<forall>k\<le>length s. match_at ?r (drop k s) = None" by (simp add: search_None_iff)
    have "\<not> sublist marker s"
    proof
      assume "sublist marker s"
      then obtain ps ss where s: "s = ps @ marker @ ss" unfolding sublist_def by blast
      then have "take (length marker) (drop (length ps) s) = marker" by simp
      moreover have "length ps \<le> length s" by (simp add: s)
      ultimately show False using nm by (auto simp: match_at_removal)
    qed
    then show ?thesis using None by (subst (1 2) sub_removal[OF assms(1)]) simp
  next
    case (Some m)
    from search_SomeD[OF Some] obtain n where
      st: "m_start m \<le> length s" and
      n: "match_at ?r (drop (m_start m) s) = Some (n, m_groups m)" "m_end m = m_start m + n" and
      before: "\<forall>k<m_start m. match_at ?r (drop k s) = None"
      by blast
    let ?p = "m_start m"
    let ?u = "drop ?p s"
    let ?t = "drop (length marker) ?u"
    let ?k = "lazy_len boundary ?t"
    from n(1) have t: "take (length marker) ?u = marker" "n = length marker + ?k"
      unfolding match_at_removal by (auto split: if_splits)
    define T where "T = drop (m_end m) s"
    define R' where "R' = sub_empty ?r T"
    have R: "sub_empty ?r s = take ?p s @ R'"
      using Some by (subst sub_removal[OF assms(1)]) (simp add: R'_def T_def)
    have Tk: "T = drop ?k ?t" by (simp add: T_def n(2) t(2) ac_simps)
    have Tb: "T = [] \<or> hd T = CHR ''\<newline>''"
    proof (cases "?k < length ?t")
      case True
      from lazy_len_stop[OF True] have "boundary T" by (simp add: Tk)
      then show ?thesis unfolding boundary_def by (cases T) (auto simp: numeral_2_eq_2)
    next
      case False
      then show ?thesis by (simp add: Tk)
    qed
    have R'b: "R' = [] \<or> hd R' = CHR ''\<newline>''"
      using Tb sub_removal_Nil[OF assms(1)] sub_removal_hd[OF assms, of T] unfolding R'_def by auto
    have Tlen: "length T < length s"
    proof -
      have "length marker \<le> length ?u" using t(1) by (metis length_take min.cobounded1)
      then have "?u \<noteq> []" using assms(1) by auto
      then have "?p < length s" by simp
      moreover have "0 < n" using t(2) assms(1) by (cases marker) auto
      ultimately show ?thesis by (simp add: T_def n(2))
    qed
    from 1[rule_format, OF Tlen] have ih:
      "\<not> sublist marker R'"
      "\<And>X. CHR ''\<newline>'' \<notin> set X \<Longrightarrow> \<not> sublist X T \<Longrightarrow> \<not> sublist X R'"
      unfolding R'_def by blast+
    have pre: "\<not> sublist marker (take ?p s)"
    proof
      assume "sublist marker (take ?p s)"
      then obtain ps ss where e: "take ?p s = ps @ marker @ ss" unfolding sublist_def by blast
      define rest where "rest = ss @ drop ?p s"
      have "s = (ps @ marker @ ss) @ drop ?p s" using e by (metis append_take_drop_id)
      then have "s = ps @ marker @ rest" by (simp add: rest_def)
      then have "drop (length ps) s = marker @ rest" by (metis append_eq_conv_conj)
      then have "take (length marker) (drop (length ps) s) = marker" by simp
      then have nn: "match_at ?r (drop (length ps) s) \<noteq> None" by (simp add: match_at_removal)
      have "length (take ?p s) \<le> ?p" by simp
      then have "length (ps @ marker @ ss) \<le> ?p" by (simp only: e)
      then have "length ps < ?p" using assms(1) by (cases marker) simp_all
      from before[rule_format, OF this] nn show False by simp
    qed
    have a: "\<not> sublist marker (sub_empty ?r s)"
    proof
      assume "sublist marker (sub_empty ?r s)"
      then have "sublist marker (take ?p s @ R')" by (simp only: R)
      from sublist_split_boundary[OF assms(2) R'b this] show False using pre ih(1) by simp
    qed
    have b: "\<not> sublist X (sub_empty ?r s)" if X: "CHR ''\<newline>'' \<notin> set X" "\<not> sublist X s" for X
    proof
      assume "sublist X (sub_empty ?r s)"
      then have "sublist X (take ?p s @ R')" by (simp only: R)
      from sublist_split_boundary[OF X(1) R'b this]
      consider "sublist X (take ?p s)" | "sublist X R'" by auto
      then show False
      proof cases
        case 1
        then have "sublist X s" by (rule sublist_of_take)
        then show False using X(2) by simp
      next
        case 2
        have "\<not> sublist X T"
        proof
          assume "sublist X T"
          then have "sublist X s" unfolding T_def by (rule sublist_of_drop)
          then show False using X(2) by simp
        qed
        from ih(2)[OF X(1) this] 2 show False by simp
      qed
    qed
    show ?thesis using a b by blast
  qed
qed

lemma lines_sublist: "l \<in> set (split ''\<newline>'' s) \<Longrightarrow> sublist l s"
proof (induction s rule: length_induct)
  case (1 s)
  show ?case
  proof (cases s rule: line_decomp)
    case one
    then have "split ''\<newline>'' s = [s]" by (rule split_line(2))
    then show ?thesis using 1(2) by simp
  next
    case (more l0 r)
    have sp: "split ''\<newline>'' s = l0 # split ''\<newline>'' r"
      unfolding more(1) using more(2) by (rule split_line(1))
    from 1(2) consider "l = l0" | "l \<in> set (split ''\<newline>'' r)" unfolding sp by auto
    then show ?thesis
    proof cases
      case 1
      then show ?thesis unfolding more(1) by simp
    next
      case 2
      have "length r < length s" by (simp add: more(1))
      from 1(1)[rule_format, OF this 2] have "sublist l r" .
      then obtain ps ss where "r = ps @ l @ ss" unfolding sublist_def by blast
      then have "s = (l0 @ CHR ''\<newline>'' # ps) @ l @ ss" by (simp add: more(1))
      then show ?thesis unfolding sublist_def by blast
    qed
  qed
qed

lemma join_sublist:
  assumes "X \<noteq> []" "CHR ''\<newline>'' \<notin> set X"
  shows "sublist X (join ''\<newline>'' ls) \<Longrightarrow> \<exists>l\<in>set ls. sublist X l"
proof (induction "''\<newline>''" ls rule: join.induct)
  case 1
  then show ?case using assms(1) by simp
next
  case (2 p)
  then show ?case by simp
next
  case (3 p q ps)
  let ?J = "join ''\<newline>'' (q # ps)"
  from 3(2) have "sublist X (p @ (CHR ''\<newline>'' # ?J))" by simp
  from sublist_split_boundary[OF assms(2) _ this]
  consider "sublist X p" | "sublist X (CHR ''\<newline>'' # ?J)" by auto
  then show ?case
  proof cases
    case 1
    then show ?thesis by simp
  next
    case 2
    have "\<not> prefix X (CHR ''\<newline>'' # ?J)"
      using assms by (cases X) auto
    with 2 have "sublist X ?J" by (simp add: sublist_Cons_right)
    from 3(1)[OF this] show ?thesis by auto
  qed
qed

lemma strip_sublist: "sublist (strip s) s"
proof -
  let ?d = "dropWhile isspace s"
  have "suffix (dropWhile isspace (rev ?d)) (rev ?d)" by (rule suffix_dropWhile)
  then have "prefix (strip s) ?d" unfolding strip_def by (simp add: suffix_to_prefix)
  then have a: "sublist (strip s) ?d" by (rule prefix_imp_sublist)
  have "suffix ?d s" by (rule suffix_dropWhile)
  then have b: "sublist ?d s" by (rule suffix_imp_sublist)
  from a b show ?thesis by (rule sublist_order.order_trans)
qed

lemma clean_no_marker:
  assumes "M = ''{Attachments}'' \<or> M = ''{Embed}'' \<or> M = ''{Reactions}''"
  shows "\<not> sublist M (clean c)"
proof
  assume c: "sublist M (clean c)"
  define c1 where "c1 = sub_empty (removal_pattern ''{Attachments}'') c"
  define c2 where "c2 = sub_empty (removal_pattern ''{Embed}'') c1"
  define c3 where "c3 = sub_empty (removal_pattern ''{Reactions}'') c2"
  define ls where "ls = filter (\<lambda>line. strip line \<noteq> []) (split ''\<newline>'' c3)"
  have cl: "clean c = strip (join ''\<newline>'' ls)"
    unfolding clean_def Let_def ls_def c3_def c2_def c1_def ..
  have M: "M \<noteq> []" "CHR ''\<newline>'' \<notin> set M" using assms by auto
  have A1: "\<not> sublist ''{Attachments}'' c1"
    unfolding c1_def using sub_removal_markers[of "''{Attachments}''" c] by simp
  have E2: "\<not> sublist ''{Embed}'' c2"
    unfolding c2_def using sub_removal_markers[of "''{Embed}''" c1] by simp
  have A2: "\<not> sublist ''{Attachments}'' c2"
    unfolding c2_def using sub_removal_markers[of "''{Embed}''" c1] A1 by simp
  have R3: "\<not> sublist ''{Reactions}'' c3"
    unfolding c3_def using sub_removal_markers[of "''{Reactions}''" c2] by simp
  have E3: "\<not> sublist ''{Embed}'' c3"
    unfolding c3_def using sub_removal_markers[of "''{Reactions}''" c2] E2 by simp
  have A3: "\<not> sublist ''{Attachments}'' c3"
    unfolding c3_def using sub_removal_markers[of "''{Reactions}''" c2] A2 by simp
  have n3: "\<not> sublist M c3" using assms A3 E3 R3 by blast
  from c have "sublist M (join ''\<newline>'' ls)"
    unfolding cl using strip_sublist sublist_order.order_trans by blast
  from join_sublist[OF M this] obtain l where l: "l \<in> set ls" "sublist M l" by blast
  from l(1) have "l \<in> set (split ''\<newline>'' c3)" by (simp add: ls_def)
  then have "sublist l c3" by (rule lines_sublist)
  with l(2) have "sublist M c3" by (rule sublist_order.order_trans)
  with n3 show False ..
qed

lemma all_markers_records:
  "fst (parse_discord_data all_markers) =
     [\<lparr>timestamp = ''2023-01-02T15:04:00'', author = ''Alice'', msg_text = ''see\<newline>more'',
       metadata = \<lparr>attachments = [''https://example.com/a.png''], embeds = [''inline'', ''{Reactions}'', ''ok''],
                    reactions = [''ok''], channel = None, guild = None\<rparr>\<rparr>]"
  by code_simp

section \<open>The pattern of strptime\<close>

lemma digit_cases:
  assumes "isdigit a"
  obtains "a = CHR ''0''" | "a = CHR ''1''" | "a = CHR ''2''" | "a = CHR ''3''" | "a = CHR ''4''"
    | "a = CHR ''5''" | "a = CHR ''6''" | "a = CHR ''7''" | "a = CHR ''8''" | "a = CHR ''9''"
  using assms unfolding isdigit_def by auto

lemma digits_shape:
  assumes "digits d"
  obtains (one) a where "d = [a]" "isdigit a"
  | (two) a b where "d = [a, b]" "isdigit a" "isdigit b"
  | (more) a b c e where "d = a # b # c # e" "isdigit a" "isdigit b" "isdigit c"
proof (cases d)
  case Nil
  then show ?thesis using assms by (simp add: digits_def)
next
  case (Cons a d1)
  note 1 = this
  show ?thesis
  proof (cases d1)
    case Nil
    then show ?thesis using assms 1 one by (simp add: digits_def)
  next
    case (Cons b d2)
    note 2 = this
    show ?thesis
    proof (cases d2)
      case Nil
      then show ?thesis using assms 1 2 two by (simp add: digits_def)
    next
      case (Cons c e)
      then show ?thesis using assms 1 2 more by (simp add: digits_def)
    qed
  qed
qed

lemma int_of_1: "int_of [a] = digit_val a"
  by (simp add: int_of_def)

lemma int_of_2: "int_of [a, b] = 10 * digit_val a + digit_val b"
  by (simp add: int_of_def)

lemma digit_val_simps:
  "digit_val CHR ''0'' = 0" "digit_val CHR ''1'' = 1" "digit_val CHR ''2'' = 2"
  "digit_val CHR ''3'' = 3" "digit_val CHR ''4'' = 4" "digit_val CHR ''5'' = 5"
  "digit_val CHR ''6'' = 6" "digit_val CHR ''7'' = 7" "digit_val CHR ''8'' = 8"
  "digit_val CHR ''9'' = 9"
  by (simp_all add: digit_val_def)

lemma acc12_iff:
  assumes "digits d"
  shows "acc12 d \<longleftrightarrow> length d \<le> 2 \<and> 1 \<le> int_of d \<and> int_of d \<le> 12"
  using assms
proof (cases d rule: digits_shape)
  case (one a)
  from one(2) show ?thesis unfolding one(1) acc12_def int_of_1
    by (cases a rule: digit_cases) (simp_all add: digit_val_simps)
next
  case (two a b)
  from two(2) show ?thesis
  proof (cases a rule: digit_cases)
  qed (use two(3) in \<open>cases b rule: digit_cases; simp add: two(1) acc12_def int_of_2 digit_val_simps\<close>)+
next
  case (more a b c e)
  then show ?thesis by (simp add: acc12_def)
qed

lemma acc_day_iff:
  assumes "digits d"
  shows "acc_day d \<longleftrightarrow> length d \<le> 2 \<and> 1 \<le> int_of d \<and> int_of d \<le> 31"
  using assms
proof (cases d rule: digits_shape)
  case (one a)
  from one(2) show ?thesis unfolding one(1) acc_day_def int_of_1
    by (cases a rule: digit_cases) (simp_all add: digit_val_simps)
next
  case (two a b)
  from two(2) show ?thesis
  proof (cases a rule: digit_cases)
  qed (use two(3) in \<open>cases b rule: digit_cases; simp add: two(1) acc_day_def int_of_2 digit_val_simps isdigit_def\<close>)+
next
  case (more a b c e)
  then show ?thesis by (simp add: acc_day_def)
qed

lemma acc_minute_iff:
  assumes "digits d"
  shows "acc_minute d \<longleftrightarrow> length d \<le> 2 \<and> int_of d \<le> 59"
  using assms
proof (cases d rule: digits_shape)
  case (one a)
  from one(2) show ?thesis unfolding one(1) acc_minute_def int_of_1
    by (cases a rule: digit_cases) (simp_all add: digit_val_simps isdigit_def)
next
  case (two a b)
  from two(2) show ?thesis
  proof (cases a rule: digit_cases)
  qed (use two(3) in \<open>cases b rule: digit_cases; simp add: two(1) acc_minute_def int_of_2 digit_val_simps isdigit_def\<close>)+
next
  case (more a b c e)
  then show ?thesis by (simp add: acc_minute_def)
qed

lemma digit_not_space: "isdigit c \<Longrightarrow> \<not> isspace c"
  by (auto simp: isdigit_def isspace_def)

lemma kill_Lit:
  assumes "\<not> isdigit x" "u \<noteq> []" "isdigit (hd u)"
  shows "ms (Cat (Lit (x # l) # rs)) (u, g) = []"
  using assms by (intro ms_Lit_hd) auto

lemma kill_Plus_Space:
  assumes "u \<noteq> []" "isdigit (hd u)"
  shows "ms (Cat (Plus Space # rs)) (u, g) = []"
  using assms digit_not_space[of "hd u"] by (cases u) auto

lemma ms_Grp_upto12:
  "ms (Grp upto12) (s, g) =
    (case s of [] \<Rightarrow> []
     | [a] \<Rightarrow> (if a \<in> set ''123456789'' then [([], g @ [[a]])] else [])
     | a # b # u \<Rightarrow>
        (if a = CHR ''1'' \<and> b \<in> set ''012'' then [(u, g @ [[a, b]])] else []) @
        (if a = CHR ''0'' \<and> b \<in> set ''123456789'' then [(u, g @ [[a, b]])] else []) @
        (if a \<in> set ''123456789'' then [(b # u, g @ [[a]])] else []))"
  by (auto simp: upto12_def nonzero_def split: list.splits)

lemma sub_digit:
  "b \<in> set ''012'' \<Longrightarrow> isdigit b" "b \<in> set ''123456789'' \<Longrightarrow> isdigit b"
  "b \<in> set ''01'' \<Longrightarrow> isdigit b" "b \<in> set ''12'' \<Longrightarrow> isdigit b"
  "b \<in> set ''012345'' \<Longrightarrow> isdigit b"
  by (auto simp: isdigit_def)

lemma step_upto12:
  assumes d: "digits d" and t: "t = [] \<or> \<not> isdigit (hd t)"
    and K: "\<And>u g'. u \<noteq> [] \<Longrightarrow> isdigit (hd u) \<Longrightarrow> ms (Cat rs) (u, g') = []"
  shows "ms (Cat (Grp upto12 # rs)) (d @ t, g) = (if acc12 d then ms (Cat rs) (t, g @ [d]) else [])"
proof -
  have c: "\<And>s. ms (Cat (Grp upto12 # rs)) (s, g) = concat (map (ms (Cat rs)) (ms (Grp upto12) (s, g)))"
    by (simp only: ms.simps(7))
  from d show ?thesis
  proof (cases d rule: digits_shape)
    case (one a)
    have "ms (Grp upto12) ([a] @ t, g) = (if a \<in> set ''123456789'' then [(t, g @ [[a]])] else [])"
    proof (cases t)
      case Nil
      then show ?thesis by (simp add: ms_Grp_upto12 del: ms.simps)
    next
      case (Cons x u)
      then have "x \<notin> set ''012''" "x \<notin> set ''123456789''" using t sub_digit(1,2)[of x] by auto
      then show ?thesis unfolding Cons by (simp add: ms_Grp_upto12 del: ms.simps)
    qed
    then show ?thesis unfolding c one(1) acc12_def by (simp del: ms.simps)
  next
    case (two a b)
    have kb: "\<And>g'. ms (Cat rs) (b # t, g') = []" using K[of "b # t"] two(3) by simp
    have "ms (Grp upto12) ([a, b] @ t, g) =
        (if a = CHR ''1'' \<and> b \<in> set ''012'' then [(t, g @ [[a, b]])] else []) @
        (if a = CHR ''0'' \<and> b \<in> set ''123456789'' then [(t, g @ [[a, b]])] else []) @
        (if a \<in> set ''123456789'' then [(b # t, g @ [[a]])] else [])"
      by (simp add: ms_Grp_upto12 del: ms.simps)
    then show ?thesis unfolding c two(1) acc12_def using kb by (auto simp del: ms.simps)
  next
    case (more a b c' e)
    have kb: "\<And>g'. ms (Cat rs) (b # c' # e @ t, g') = []" using K[of "b # c' # e @ t"] more(3) by simp
    have kc: "\<And>g'. ms (Cat rs) (c' # e @ t, g') = []" using K[of "c' # e @ t"] more(4) by simp
    have "ms (Grp upto12) ((a # b # c' # e) @ t, g) =
        (if a = CHR ''1'' \<and> b \<in> set ''012'' then [(c' # e @ t, g @ [[a, b]])] else []) @
        (if a = CHR ''0'' \<and> b \<in> set ''123456789'' then [(c' # e @ t, g @ [[a, b]])] else []) @
        (if a \<in> set ''123456789'' then [(b # c' # e @ t, g @ [[a]])] else [])"
      by (simp add: ms_Grp_upto12 del: ms.simps)
    then show ?thesis unfolding c more(1) acc12_def using kb kc by (simp del: ms.simps)
  qed
qed

lemma strptime_pattern_parts:
  "strptime_pattern = Cat [Grp upto12, Lit ''/'', Grp day_rx, Lit ''/'', Grp year_rx, Plus Space,
     Grp upto12, Lit '':'', Grp minute_rx, Plus Space, Grp ampm_rx]"
  by (simp add: strptime_pattern_def day_rx_def year_rx_def minute_rx_def ampm_rx_def)

lemma ms_Grp_day:
  "ms (Grp day_rx) (s, g) =
    (case s of [] \<Rightarrow> []
     | [a] \<Rightarrow> (if a \<in> set ''123456789'' then [([], g @ [[a]])] else [])
     | a # b # u \<Rightarrow>
        (if a = CHR ''3'' \<and> b \<in> set ''01'' then [(u, g @ [[a, b]])] else []) @
        (if a \<in> set ''12'' \<and> isdigit b then [(u, g @ [[a, b]])] else []) @
        (if a = CHR ''0'' \<and> b \<in> set ''123456789'' then [(u, g @ [[a, b]])] else []) @
        (if a \<in> set ''123456789'' then [(b # u, g @ [[a]])] else []) @
        (if a = CHR '' '' \<and> b \<in> set ''123456789'' then [(u, g @ [[a, b]])] else []))"
  by (auto simp: day_rx_def nonzero_def split: list.splits)

lemma ms_Grp_minute:
  "ms (Grp minute_rx) (s, g) =
    (case s of [] \<Rightarrow> []
     | [a] \<Rightarrow> (if isdigit a then [([], g @ [[a]])] else [])
     | a # b # u \<Rightarrow>
        (if a \<in> set ''012345'' \<and> isdigit b then [(u, g @ [[a, b]])] else []) @
        (if isdigit a then [(b # u, g @ [[a]])] else []))"
  by (auto simp: minute_rx_def split: list.splits)

lemma ms_Grp_year:
  "ms (Grp year_rx) (s, g) =
    (case s of a # b # c # e # u \<Rightarrow>
        (if isdigit a \<and> isdigit b \<and> isdigit c \<and> isdigit e then [(u, g @ [[a, b, c, e]])] else [])
     | _ \<Rightarrow> [])"
  by (auto simp: year_rx_def split: list.splits)

lemma step_day:
  assumes d: "digits d" and t: "t = [] \<or> \<not> isdigit (hd t)"
    and K: "\<And>u g'. u \<noteq> [] \<Longrightarrow> isdigit (hd u) \<Longrightarrow> ms (Cat rs) (u, g') = []"
  shows "ms (Cat (Grp day_rx # rs)) (d @ t, g) = (if acc_day d then ms (Cat rs) (t, g @ [d]) else [])"
proof -
  have c: "\<And>s. ms (Cat (Grp day_rx # rs)) (s, g) = concat (map (ms (Cat rs)) (ms (Grp day_rx) (s, g)))"
    by (simp only: ms.simps(7))
  have sp: "\<not> isdigit CHR '' ''" by (simp add: isdigit_def)
  from d show ?thesis
  proof (cases d rule: digits_shape)
    case (one a)
    have a: "a \<noteq> CHR '' ''" using one(2) sp by auto
    have "ms (Grp day_rx) ([a] @ t, g) = (if a \<in> set ''123456789'' then [(t, g @ [[a]])] else [])"
    proof (cases t)
      case Nil
      then show ?thesis by (simp add: ms_Grp_day del: ms.simps)
    next
      case (Cons x u)
      then have "x \<notin> set ''01''" "x \<notin> set ''123456789''" "\<not> isdigit x"
        using t sub_digit(2,3)[of x] by auto
      then show ?thesis unfolding Cons using a by (simp add: ms_Grp_day del: ms.simps)
    qed
    then show ?thesis unfolding c one(1) acc_day_def by (simp del: ms.simps)
  next
    case (two a b)
    have a: "a \<noteq> CHR '' ''" using two(2) sp by auto
    have kb: "\<And>g'. ms (Cat rs) (b # t, g') = []" using K[of "b # t"] two(3) by simp
    have "ms (Grp day_rx) ([a, b] @ t, g) =
        (if a = CHR ''3'' \<and> b \<in> set ''01'' then [(t, g @ [[a, b]])] else []) @
        (if a \<in> set ''12'' \<and> isdigit b then [(t, g @ [[a, b]])] else []) @
        (if a = CHR ''0'' \<and> b \<in> set ''123456789'' then [(t, g @ [[a, b]])] else []) @
        (if a \<in> set ''123456789'' then [(b # t, g @ [[a]])] else [])"
      using a by (simp add: ms_Grp_day del: ms.simps)
    then show ?thesis unfolding c two(1) acc_day_def using kb by (auto simp del: ms.simps)
  next
    case (more a b c' e)
    have a: "a \<noteq> CHR '' ''" using more(2) sp by auto
    have kb: "\<And>g'. ms (Cat rs) (b # c' # e @ t, g') = []" using K[of "b # c' # e @ t"] more(3) by simp
    have kc: "\<And>g'. ms (Cat rs) (c' # e @ t, g') = []" using K[of "c' # e @ t"] more(4) by simp
    have "ms (Grp day_rx) ((a # b # c' # e) @ t, g) =
        (if a = CHR ''3'' \<and> b \<in> set ''01'' then [(c' # e @ t, g @ [[a, b]])] else []) @
        (if a \<in> set ''12'' \<and> isdigit b then [(c' # e @ t, g @ [[a, b]])] else []) @
        (if a = CHR ''0'' \<and> b \<in> set ''123456789'' then [(c' # e @ t, g @ [[a, b]])] else []) @
        (if a \<in> set ''123456789'' then [(b # c' # e @ t, g @ [[a]])] else [])"
      using a by (simp add: ms_Grp_day del: ms.simps)
    then show ?thesis unfolding c more(1) acc_day_def using kb kc by (simp del: ms.simps)
  qed
qed

lemma step_minute:
  assumes d: "digits d" and t: "t = [] \<or> \<not> isdigit (hd t)"
    and K: "\<And>u g'. u \<noteq> [] \<Longrightarrow> isdigit (hd u) \<Longrightarrow> ms (Cat rs) (u, g') = []"
  shows "ms (Cat (Grp minute_rx # rs)) (d @ t, g) = (if acc_minute d then ms (Cat rs) (t, g @ [d]) else [])"
proof -
  have c: "\<And>s. ms (Cat (Grp minute_rx # rs)) (s, g) = concat (map (ms (Cat rs)) (ms (Grp minute_rx) (s, g)))"
    by (simp only: ms.simps(7))
  from d show ?thesis
  proof (cases d rule: digits_shape)
    case (one a)
    have "ms (Grp minute_rx) ([a] @ t, g) = [(t, g @ [[a]])]"
    proof (cases t)
      case Nil
      then show ?thesis using one(2) by (simp add: ms_Grp_minute del: ms.simps)
    next
      case (Cons x u)
      then have "\<not> isdigit x" using t by auto
      then show ?thesis unfolding Cons using one(2) by (simp add: ms_Grp_minute del: ms.simps)
    qed
    then show ?thesis unfolding c one(1) acc_minute_def using one(2) by (simp del: ms.simps)
  next
    case (two a b)
    have kb: "\<And>g'. ms (Cat rs) (b # t, g') = []" using K[of "b # t"] two(3) by simp
    have "ms (Grp minute_rx) ([a, b] @ t, g) =
        (if a \<in> set ''012345'' then [(t, g @ [[a, b]])] else []) @ [(b # t, g @ [[a]])]"
      using two(2,3) by (simp add: ms_Grp_minute del: ms.simps)
    then show ?thesis unfolding c two(1) acc_minute_def using kb two(3) by (auto simp del: ms.simps)
  next
    case (more a b c' e)
    have kb: "\<And>g'. ms (Cat rs) (b # c' # e @ t, g') = []" using K[of "b # c' # e @ t"] more(3) by simp
    have kc: "\<And>g'. ms (Cat rs) (c' # e @ t, g') = []" using K[of "c' # e @ t"] more(4) by simp
    have "ms (Grp minute_rx) ((a # b # c' # e) @ t, g) =
        (if a \<in> set ''012345'' then [(c' # e @ t, g @ [[a, b]])] else []) @ [(b # c' # e @ t, g @ [[a]])]"
      using more(2,3) by (simp add: ms_Grp_minute del: ms.simps)
    then show ?thesis unfolding c more(1) acc_minute_def using kb kc by (simp del: ms.simps)
  qed
qed

lemma step_year:
  assumes d: "digits d" and t: "t = [] \<or> \<not> isdigit (hd t)"
    and K: "\<And>u g'. u \<noteq> [] \<Longrightarrow> isdigit (hd u) \<Longrightarrow> ms (Cat rs) (u, g') = []"
  shows "ms (Cat (Grp year_rx # rs)) (d @ t, g) = (if length d = 4 then ms (Cat rs) (t, g @ [d]) else [])"
proof -
  have c: "\<And>s. ms (Cat (Grp year_rx # rs)) (s, g) = concat (map (ms (Cat rs)) (ms (Grp year_rx) (s, g)))"
    by (simp only: ms.simps(7))
  have nt: "\<And>x u. t = x # u \<Longrightarrow> \<not> isdigit x" using t by auto
  from d show ?thesis
  proof (cases d rule: digits_shape)
    case (one a)
    have "ms (Grp year_rx) ([a] @ t, g) = []"
      using nt by (simp add: ms_Grp_year del: ms.simps split: list.splits)
    then show ?thesis unfolding c one(1) by (simp del: ms.simps)
  next
    case (two a b)
    have "ms (Grp year_rx) ([a, b] @ t, g) = []"
      using nt by (simp add: ms_Grp_year del: ms.simps split: list.splits)
    then show ?thesis unfolding c two(1) by (simp del: ms.simps)
  next
    case (more a b c' e)
    note m = this
    show ?thesis
    proof (cases e)
      case Nil
      have "ms (Grp year_rx) ([a, b, c'] @ t, g) = []"
        using nt by (simp add: ms_Grp_year del: ms.simps split: list.splits)
      then show ?thesis unfolding c m(1) Nil by (simp del: ms.simps)
    next
      case (Cons x e')
      have x: "isdigit x" using d unfolding m(1) Cons digits_def by simp
      show ?thesis
      proof (cases e')
        case Nil
        have "ms (Grp year_rx) ([a, b, c', x] @ t, g) = [(t, g @ [[a, b, c', x]])]"
          using m(2,3,4) x by (simp add: ms_Grp_year del: ms.simps)
        then show ?thesis unfolding c m(1) Cons Nil by (simp del: ms.simps)
      next
        case (Cons y e'')
        have y: "isdigit y" using d unfolding m(1) \<open>e = x # e'\<close> Cons digits_def by simp
        have ky: "\<And>g'. ms (Cat rs) (y # e'' @ t, g') = []" using K[of "y # e'' @ t"] y by simp
        have "ms (Grp year_rx) ((a # b # c' # x # y # e'') @ t, g) = [(y # e'' @ t, g @ [[a, b, c', x]])]"
          using m(2,3,4) x by (simp add: ms_Grp_year del: ms.simps)
        then show ?thesis unfolding c m(1) \<open>e = x # e'\<close> Cons using ky by (simp del: ms.simps)
      qed
    qed
  qed
qed

lemma plus_space_one:
  assumes "s \<noteq> []" "\<not> isspace (hd s)"
  shows "ms (Cat (Plus Space # rs)) (CHR '' '' # s, g) = ms (Cat rs) (s, g)"
proof -
  have "isspace CHR '' ''" by (simp add: isspace_def)
  then show ?thesis using assms by (cases s) (simp_all del: ms.simps(7) add: ms.simps(7)[of "Plus Space"])
qed

lemma ms_ampm:
  assumes "ap \<in> set ''AP''"
  shows "ms (Cat [Grp ampm_rx]) ([ap, CHR ''M''], g) = [([], g @ [[ap, CHR ''M'']])]"
  using assms by (auto simp: ampm_rx_def)

lemma digits_hd: "digits d \<Longrightarrow> (d @ t) \<noteq> [] \<and> isdigit (hd (d @ t))"
  by (cases d) (simp_all add: digits_def)

lemma ms_strptime_pattern:
  assumes "digits mo" "digits d" "digits y" "digits h" "digits mi" "ap \<in> set ''AP''"
  shows "ms strptime_pattern
     (mo @ CHR ''/'' # d @ CHR ''/'' # y @ CHR '' '' # h @ CHR '':'' # mi @ CHR '' '' # [ap, CHR ''M''], [])
     = (if acc12 mo \<and> acc_day d \<and> length y = 4 \<and> acc12 h \<and> acc_minute mi
        then [([], [mo, d, y, h, mi, [ap, CHR ''M'']])] else [])"
proof -
  define R10 where "R10 = [Grp ampm_rx]"
  define R9 where "R9 = Plus Space # R10"
  define R8 where "R8 = Grp minute_rx # R9"
  define R7 where "R7 = Lit '':'' # R8"
  define R6 where "R6 = Grp upto12 # R7"
  define R5 where "R5 = Plus Space # R6"
  define R4 where "R4 = Grp year_rx # R5"
  define R3 where "R3 = Lit ''/'' # R4"
  define R2 where "R2 = Grp day_rx # R3"
  define R1 where "R1 = Lit ''/'' # R2"
  define t9 where "t9 = CHR '' '' # [ap, CHR ''M'']"
  define t7 where "t7 = CHR '':'' # mi @ t9"
  define t5 where "t5 = CHR '' '' # h @ t7"
  define t3 where "t3 = CHR ''/'' # y @ t5"
  define t1 where "t1 = CHR ''/'' # d @ t3"
  have p: "strptime_pattern = Cat (Grp upto12 # R1)"
    by (simp add: strptime_pattern_parts R1_def R2_def R3_def R4_def R5_def R6_def R7_def R8_def R9_def R10_def)
  have s: "mo @ CHR ''/'' # d @ CHR ''/'' # y @ CHR '' '' # h @ CHR '':'' # mi @ CHR '' '' # [ap, CHR ''M''] = mo @ t1"
    by (simp add: t1_def t3_def t5_def t7_def t9_def)
  have nd: "\<not> isdigit CHR ''/''" "\<not> isdigit CHR '' ''" "\<not> isdigit CHR '':''"
    by (simp_all add: isdigit_def)
  have ap: "\<not> isspace ap" using assms(6) by (auto simp: isspace_def)
  have K1: "\<And>u g'. u \<noteq> [] \<Longrightarrow> isdigit (hd u) \<Longrightarrow> ms (Cat R1) (u, g') = []"
    unfolding R1_def by (rule kill_Lit[OF nd(1)])
  have K3: "\<And>u g'. u \<noteq> [] \<Longrightarrow> isdigit (hd u) \<Longrightarrow> ms (Cat R3) (u, g') = []"
    unfolding R3_def by (rule kill_Lit[OF nd(1)])
  have K5: "\<And>u g'. u \<noteq> [] \<Longrightarrow> isdigit (hd u) \<Longrightarrow> ms (Cat R5) (u, g') = []"
    unfolding R5_def by (rule kill_Plus_Space)
  have K7: "\<And>u g'. u \<noteq> [] \<Longrightarrow> isdigit (hd u) \<Longrightarrow> ms (Cat R7) (u, g') = []"
    unfolding R7_def by (rule kill_Lit[OF nd(3)])
  have K9: "\<And>u g'. u \<noteq> [] \<Longrightarrow> isdigit (hd u) \<Longrightarrow> ms (Cat R9) (u, g') = []"
    unfolding R9_def by (rule kill_Plus_Space)
  have e1: "ms (Cat (Grp upto12 # R1)) (mo @ t1, []) = (if acc12 mo then ms (Cat R1) (t1, [] @ [mo]) else [])"
    by (rule step_upto12[OF assms(1) _ K1]) (simp add: t1_def nd)
  have e2: "ms (Cat R1) (t1, [mo]) = ms (Cat R2) (d @ t3, [mo])"
    unfolding R1_def t1_def by (simp add: ms_Lit_Cons del: ms.simps(7))
  have e3: "ms (Cat R2) (d @ t3, [mo]) = (if acc_day d then ms (Cat R3) (t3, [mo] @ [d]) else [])"
    unfolding R2_def by (rule step_day[OF assms(2) _ K3]) (simp add: t3_def nd)
  have e4: "ms (Cat R3) (t3, [mo, d]) = ms (Cat R4) (y @ t5, [mo, d])"
    unfolding R3_def t3_def by (simp add: ms_Lit_Cons del: ms.simps(7))
  have e5: "ms (Cat R4) (y @ t5, [mo, d]) = (if length y = 4 then ms (Cat R5) (t5, [mo, d] @ [y]) else [])"
    unfolding R4_def by (rule step_year[OF assms(3) _ K5]) (simp add: t5_def nd)
  have e6: "ms (Cat R5) (t5, [mo, d, y]) = ms (Cat R6) (h @ t7, [mo, d, y])"
    unfolding R5_def t5_def using digits_hd[OF assms(4), of t7] digit_not_space
    by (intro plus_space_one) auto
  have e7: "ms (Cat R6) (h @ t7, [mo, d, y]) = (if acc12 h then ms (Cat R7) (t7, [mo, d, y] @ [h]) else [])"
    unfolding R6_def by (rule step_upto12[OF assms(4) _ K7]) (simp add: t7_def nd)
  have e8: "ms (Cat R7) (t7, [mo, d, y, h]) = ms (Cat R8) (mi @ t9, [mo, d, y, h])"
    unfolding R7_def t7_def by (simp add: ms_Lit_Cons del: ms.simps(7))
  have e9: "ms (Cat R8) (mi @ t9, [mo, d, y, h]) =
      (if acc_minute mi then ms (Cat R9) (t9, [mo, d, y, h] @ [mi]) else [])"
    unfolding R8_def by (rule step_minute[OF assms(5) _ K9]) (simp add: t9_def nd)
  have e10: "ms (Cat R9) (t9, [mo, d, y, h, mi]) = ms (Cat R10) ([ap, CHR ''M''], [mo, d, y, h, mi])"
    unfolding R9_def t9_def using ap by (intro plus_space_one) auto
  have e11: "ms (Cat R10) ([ap, CHR ''M''], [mo, d, y, h, mi]) = [([], [mo, d, y, h, mi] @ [[ap, CHR ''M'']])]"
    unfolding R10_def by (rule ms_ampm[OF assms(6)])
  show ?thesis
    unfolding s p e1 by (simp only: append_Nil append_Cons e2 e3 e4 e5 e6 e7 e8 e9 e10 e11 if_distrib cong: if_cong) simp
qed

lemma days_in_month_le: "days_in_month y m \<le> 31"
  by (simp add: days_in_month_def)

lemma strptime_fields:
  assumes "digits mo" "digits d" "digits y" "digits h" "digits mi" "ap \<in> set ''AP''"
  shows "strptime (mo @ ''/'' @ d @ ''/'' @ y @ '' '' @ h @ '':'' @ mi @ '' '' @ [ap] @ ''M'')
           = read_fields mo d y h mi ap"
proof -
  define lit where "lit = mo @ CHR ''/'' # d @ CHR ''/'' # y @ CHR '' '' # h @ CHR '':'' # mi @ CHR '' '' # [ap, CHR ''M'']"
  have l: "mo @ ''/'' @ d @ ''/'' @ y @ '' '' @ h @ '':'' @ mi @ '' '' @ [ap] @ ''M'' = lit"
    by (simp add: lit_def)
  note m = ms_strptime_pattern[OF assms, folded lit_def]
  note a = acc12_iff[OF assms(1)] acc_day_iff[OF assms(2)] acc12_iff[OF assms(4)] acc_minute_iff[OF assms(5)]
  show ?thesis
  proof (cases "acc12 mo \<and> acc_day d \<and> length y = 4 \<and> acc12 h \<and> acc_minute mi")
    case False
    then have "ms strptime_pattern (lit, []) = []" using m by auto
    then have "strptime lit = None" by (simp add: strptime_def match_at_def)
    moreover have "read_fields mo d y h mi ap = None"
      using False a days_in_month_le[of "int_of y" "int_of mo"]
      unfolding read_fields_def valid_date_def by auto
    ultimately show ?thesis unfolding l by simp
  next
    case True
    then have "ms strptime_pattern (lit, []) = [([], [mo, d, y, h, mi, [ap, CHR ''M'']])]" using m by auto
    then have ma: "match_at strptime_pattern lit = Some (length lit, [mo, d, y, h, mi, [ap, CHR ''M'']])"
      by (simp add: match_at_def)
    have hh: "1 \<le> int_of h" "int_of h \<le> 12" using True a(3) by auto
    have hr: "(if hd [ap, CHR ''M''] \<in> set ''aA'' then (if int_of h = 12 then 0 else int_of h)
               else (if int_of h \<noteq> 12 then int_of h + 12 else int_of h)) = hour24 (int_of h) ap"
      using assms(6) hh by (auto simp: hour24_def)
    have c: "read_fields mo d y h mi ap =
       (if valid_date (int_of y) (int_of mo) (int_of d)
        then Some \<lparr>year = int_of y, month = int_of mo, day = int_of d,
                  hour = hour24 (int_of h) ap, minute = int_of mi\<rparr> else None)"
      using True a unfolding read_fields_def by auto
    have "strptime lit =
       (if valid_date (int_of y) (int_of mo) (int_of d)
        then Some \<lparr>year = int_of y, month = int_of mo, day = int_of d,
                  hour = hour24 (int_of h) ap, minute = int_of mi\<rparr> else None)"
      unfolding strptime_def ma by (simp only: option.case prod.case list.case Let_def hr) simp
    then show ?thesis unfolding l c .
  qed
qed

lemma char_of_digit:
  "char_of (48 :: nat) = CHR ''0''" "char_of (49 :: nat) = CHR ''1''" "char_of (50 :: nat) = CHR ''2''"
  "char_of (51 :: nat) = CHR ''3''" "char_of (52 :: nat) = CHR ''4''" "char_of (53 :: nat) = CHR ''5''"
  "char_of (54 :: nat) = CHR ''6''" "char_of (55 :: nat) = CHR ''7''" "char_of (56 :: nat) = CHR ''8''"
  "char_of (57 :: nat) = CHR ''9''"
  using char_of_char[of "CHR ''0''", where ?'a = nat] char_of_char[of "CHR ''1''", where ?'a = nat]
    char_of_char[of "CHR ''2''", where ?'a = nat] char_of_char[of "CHR ''3''", where ?'a = nat]
    char_of_char[of "CHR ''4''", where ?'a = nat] char_of_char[of "CHR ''5''", where ?'a = nat]
    char_of_char[of "CHR ''6''", where ?'a = nat] char_of_char[of "CHR ''7''", where ?'a = nat]
    char_of_char[of "CHR ''8''", where ?'a = nat] char_of_char[of "CHR ''9''", where ?'a = nat]
  by simp_all

lemma digit_chr_nth: "digit_chr k = ''0123456789'' ! (k mod 10)"
proof -
  have "k mod 10 < 10" by simp
  then consider "k mod 10 = 0" | "k mod 10 = 1" | "k mod 10 = 2" | "k mod 10 = 3" | "k mod 10 = 4"
    | "k mod 10 = 5" | "k mod 10 = 6" | "k mod 10 = 7" | "k mod 10 = 8" | "k mod 10 = 9"
    by atomize_elim arith
  then show ?thesis by cases (simp_all add: digit_chr_def char_of_digit)
qed

lemma digit_chr_digit: "isdigit (digit_chr k)"
proof -
  have "k mod 10 < length ''0123456789''" by simp
  then have "''0123456789'' ! (k mod 10) \<in> set ''0123456789''" by (rule nth_mem)
  then show ?thesis unfolding digit_chr_nth isdigit_def .
qed

lemma digit_val_chr: "digit_val (digit_chr k) = k mod 10"
proof -
  have "k mod 10 < 10" by simp
  then consider "k mod 10 = 0" | "k mod 10 = 1" | "k mod 10 = 2" | "k mod 10 = 3" | "k mod 10 = 4"
    | "k mod 10 = 5" | "k mod 10 = 6" | "k mod 10 = 7" | "k mod 10 = 8" | "k mod 10 = 9"
    by atomize_elim arith
  then show ?thesis by cases (simp_all add: digit_chr_def digit_val_def)
qed

lemma pad2_read:
  assumes "n < 100"
  shows "length (pad2 n) = 2" "digits (pad2 n)" "int_of (pad2 n) = n"
proof -
  show "length (pad2 n) = 2" by (simp add: pad2_def)
  show "digits (pad2 n)" by (simp add: pad2_def digits_def digit_chr_digit)
  have "n div 10 < 10" using assms by simp
  then show "int_of (pad2 n) = n" by (simp add: pad2_def int_of_def digit_val_chr)
qed

lemma pad4_read:
  assumes "n < 10000"
  shows "length (pad4 n) = 4" "digits (pad4 n)" "int_of (pad4 n) = n"
proof -
  show "length (pad4 n) = 4" by (simp add: pad4_def)
  show "digits (pad4 n)" by (simp add: pad4_def digits_def digit_chr_digit)
  define q1 where "q1 = n div 10"
  define q2 where "q2 = n div 100"
  define q3 where "q3 = n div 1000"
  have 1: "q3 < 10" using assms by (simp add: q3_def)
  have 2: "q2 = q1 div 10" "q3 = q2 div 10" by (simp_all add: q1_def q2_def q3_def div_mult2_eq)
  have "int_of (pad4 n) = 10 * (10 * (10 * (q3 mod 10) + q2 mod 10) + q1 mod 10) + n mod 10"
    by (simp add: pad4_def int_of_def digit_val_chr q1_def q2_def q3_def)
  also have "10 * (q3 mod 10) + q2 mod 10 = q2" using 1 by (simp add: 2(2))
  also have "10 * q2 + q1 mod 10 = q1" by (simp add: 2(1))
  also have "10 * q1 + n mod 10 = n" by (simp add: q1_def)
  finally show "int_of (pad4 n) = n" .
qed

lemma iso_readback:
  assumes "year t < 10000" "month t < 100" "day t < 100" "hour t < 100" "minute t < 100"
  shows "\<exists>Y Mo D H Mi.
      isoformat t = Y @ ''-'' @ Mo @ ''-'' @ D @ ''T'' @ H @ '':'' @ Mi @ '':00''
    \<and> length Y = 4 \<and> length Mo = 2 \<and> length D = 2 \<and> length H = 2 \<and> length Mi = 2
    \<and> digits Y \<and> digits Mo \<and> digits D \<and> digits H \<and> digits Mi
    \<and> int_of Y = year t \<and> int_of Mo = month t \<and> int_of D = day t
    \<and> int_of H = hour t \<and> int_of Mi = minute t"
  using pad4_read[OF assms(1)] pad2_read[OF assms(2)] pad2_read[OF assms(3)]
    pad2_read[OF assms(4)] pad2_read[OF assms(5)]
  unfolding isoformat_def by blast

lemma read_fields_bounds:
  assumes "read_fields mo d y h mi ap = Some t"
  shows "year t < 10000" "month t < 100" "day t < 100" "hour t < 24" "minute t < 60"
    "valid_date (year t) (month t) (day t)"
proof -
  from assms have c: "1 \<le> int_of h" "int_of h \<le> 12" "int_of mi \<le> 59"
    "valid_date (int_of y) (int_of mo) (int_of d)"
    and t: "t = \<lparr>year = int_of y, month = int_of mo, day = int_of d,
                  hour = hour24 (int_of h) ap, minute = int_of mi\<rparr>"
    unfolding read_fields_def by (auto split: if_splits)
  show "valid_date (year t) (month t) (day t)" using c(4) t by simp
  show "year t < 10000" "month t < 100" using c(4) t by (simp_all add: valid_date_def)
  show "day t < 100" using c(4) t days_in_month_le[of "int_of y" "int_of mo"]
    by (simp add: valid_date_def)
  define k where "k = int_of h mod 12"
  have "k < 12" by (simp add: k_def)
  then have "hour24 (int_of h) ap < 24" unfolding hour24_def k_def[symmetric] by simp
  then show "hour t < 24" using t by simp
  show "minute t < 60" using c(3) t by simp
qed

lemma is_stamp_form:
  assumes "is_stamp lit"
  shows "\<exists>mo d y h mi ap. digits mo \<and> digits d \<and> digits y \<and> digits h \<and> digits mi \<and> ap \<in> set ''AP''
     \<and> lit = mo @ ''/'' @ d @ ''/'' @ y @ '' '' @ h @ '':'' @ mi @ '' '' @ [ap] @ ''M''"
proof -
  from assms have "stamp_rest lit = Some []" by (simp add: is_stamp_def)
  from stamp_restD[OF this] obtain d1 d2 d3 d4 d5 x where
    "lit = d1 @ CHR ''/'' # d2 @ CHR ''/'' # d3 @ CHR '' '' # d4 @ CHR '':'' # d5 @ CHR '' '' # x # CHR ''M'' # []"
    "digits d1" "digits d2" "digits d3" "digits d4" "digits d5" "x \<in> set ''AP''" by blast
  then have "digits d1 \<and> digits d2 \<and> digits d3 \<and> digits d4 \<and> digits d5 \<and> x \<in> set ''AP''
     \<and> lit = d1 @ ''/'' @ d2 @ ''/'' @ d3 @ '' '' @ d4 @ '':'' @ d5 @ '' '' @ [x] @ ''M''" by simp
  then show ?thesis by blast
qed

lemma finditer_message_stamp:
  assumes "i < length (finditer message_pattern doc)"
  shows "is_stamp (group (finditer message_pattern doc ! i) 1)"
proof -
  let ?m = "finditer message_pattern doc ! i"
  from assms have "?m \<in> set (finditer message_pattern doc)" by (rule nth_mem)
  from finditer_message_match[OF this] obtain n where
    "match_at message_pattern (drop (m_start ?m) doc) = Some (n, m_groups ?m)" by blast
  from message_chunk[OF this] obtain ts a body where "m_groups ?m = [ts, a, body]" "is_stamp ts" by blast
  then show ?thesis by (simp add: group_def)
qed
section \<open>Scenario A: header and one message\<close>

text \<open>
  C6. The banner with guild \<open>TestGuild\<close>, channel \<open>General / chat\<close> and topic
  \<open>none\<close>, followed by the message \<open>[1/2/2023 3:04 PM] Alice\<close> with the body line
  \<open>hello world\<close>, gives exactly one record: author \<open>Alice\<close>, text \<open>hello world\<close>,
  guild \<open>TestGuild\<close>, channel \<open>chat\<close> (what follows the last \<open>' / '\<close>) and timestamp
  \<open>2023-01-02T15:04:00\<close>. The result is the same when the body line ends with a
  newline.
\<close>

theorem scenario_A_record:
  "parse_discord_data scenario_A =
     ([\<lparr>timestamp = ''2023-01-02T15:04:00'', author = ''Alice'', msg_text = ''hello world'',
        metadata = \<lparr>attachments = [], embeds = [], reactions = [],
                     channel = Some ''chat'', guild = Some ''TestGuild''\<rparr>\<rparr>],
      \<lparr>md_guild = Some ''TestGuild'', md_channel = Some ''chat'', md_topic = Some ''none''\<rparr>)
   \<and> fst (parse_discord_data (scenario_A @ ''\<newline>'')) = fst (parse_discord_data scenario_A)"
  by code_simp

section \<open>What the extraction scans\<close>

text \<open>
  C1 says that on each iteration the embed and reaction extraction scans the whole,
  unsegmented document, so that every record would carry the first section of the
  document. It does not: in the document \<open>two_embeds\<close> the second record has the
  embeds and the reactions of its own chunk, which are not those found by scanning the
  document.
\<close>

theorem whole_document_scan_counterexample:
  "embeds (metadata (fst (parse_discord_data two_embeds) ! 1)) = [''second'', ''{Reactions}'', ''two'']
   \<and> extract_embeds two_embeds = [''first'', ''{Reactions}'', ''one'']
   \<and> reactions (metadata (fst (parse_discord_data two_embeds) ! 1)) = [''two'']
   \<and> extract_reactions two_embeds = [''one'']"
  by code_simp

text \<open>
  C1, amended. The first statement of the loop body binds \<open>content\<close> to the third group
  of the match, and the extraction reads that variable: for every document, the parser
  gives one record for each match of \<open>message_pattern\<close>, and the embeds and the
  reactions of the \<open>i\<close>-th record are extracted from the body that the \<open>i\<close>-th match
  bound.
\<close>

theorem extraction_scans_chunk_body:
  assumes "i < length (finditer message_pattern doc)"
  shows "length (fst (parse_discord_data doc)) = length (finditer message_pattern doc)
    \<and> embeds (metadata (fst (parse_discord_data doc) ! i))
        = extract_embeds (group (finditer message_pattern doc ! i) 3)
    \<and> reactions (metadata (fst (parse_discord_data doc) ! i))
        = extract_reactions (group (finditer message_pattern doc ! i) 3)"
  using assms by (simp add: parse_records)

theorem extraction_scans_chunk_body_witness:
  "1 < length (finditer message_pattern two_embeds)
   \<and> group (finditer message_pattern two_embeds ! 1) 3 = ''yo\<newline>{Embed}\<newline>second\<newline>{Reactions}\<newline>two\<newline>''
   \<and> embeds (metadata (fst (parse_discord_data two_embeds) ! 1))
        = extract_embeds ''yo\<newline>{Embed}\<newline>second\<newline>{Reactions}\<newline>two\<newline>''"
proof -
  have h: "1 < length (finditer message_pattern two_embeds)" by code_simp
  have g: "group (finditer message_pattern two_embeds ! 1) 3 = ''yo\<newline>{Embed}\<newline>second\<newline>{Reactions}\<newline>two\<newline>''"
    by code_simp
  show ?thesis using extraction_scans_chunk_body[OF h] h g by simp
qed


section \<open>Timestamps of the records\<close>

text \<open>
  C7. For every message, the timestamp of the record is the ISO form of the parsed
  date when \<open>strptime\<close> accepts the literal, and the literal itself, unchanged, when
  \<open>strptime\<close> raises its \<^verbatim>\<open>ValueError\<close>. The literal of a message is a timestamp
  \<open>M/D/Y H:Min AM\<close> or \<open>PM\<close> of digit strings, and on such a literal \<open>strptime\<close>
  gives what \<open>read_fields\<close> reads: it accepts the literal exactly when the fields are
  a date of the calendar with a four-digit year and a time of the twelve-hour clock,
  and the parsed date has those fields, the hour counted from 0 to 23. The ISO form of
  such a date is \<open>YYYY-MM-DDTHH:MM:00\<close>, where the digit strings read back as the
  year, the month, the day, the hour and the minute. The literal
  \<open>99/99/9999 1:00 PM\<close> is not accepted, and the record of scenario C carries it
  verbatim.
\<close>

theorem timestamp_normalised_or_verbatim:
  "(i < length (finditer message_pattern doc) \<longrightarrow>
      is_stamp (group (finditer message_pattern doc ! i) 1)
    \<and> timestamp (fst (parse_discord_data doc) ! i) =
        (case strptime (group (finditer message_pattern doc ! i) 1) of
           Some t \<Rightarrow> isoformat t
         | None \<Rightarrow> group (finditer message_pattern doc ! i) 1))
   \<and> (is_stamp lit \<longrightarrow>
        (\<exists>mo d y h mi ap. digits mo \<and> digits d \<and> digits y \<and> digits h \<and> digits mi \<and> ap \<in> set ''AP''
           \<and> lit = mo @ ''/'' @ d @ ''/'' @ y @ '' '' @ h @ '':'' @ mi @ '' '' @ [ap] @ ''M''))
   \<and> (digits mo \<and> digits d \<and> digits y \<and> digits h \<and> digits mi \<and> ap \<in> set ''AP'' \<longrightarrow>
        strptime (mo @ ''/'' @ d @ ''/'' @ y @ '' '' @ h @ '':'' @ mi @ '' '' @ [ap] @ ''M'')
          = read_fields mo d y h mi ap)
   \<and> (read_fields mo d y h mi ap = Some t \<longrightarrow>
        hour t < 24 \<and> minute t < 60
      \<and> (\<exists>Y Mo D H Mi.
            isoformat t = Y @ ''-'' @ Mo @ ''-'' @ D @ ''T'' @ H @ '':'' @ Mi @ '':00''
          \<and> length Y = 4 \<and> length Mo = 2 \<and> length D = 2 \<and> length H = 2 \<and> length Mi = 2
          \<and> digits Y \<and> digits Mo \<and> digits D \<and> digits H \<and> digits Mi
          \<and> int_of Y = year t \<and> int_of Mo = month t \<and> int_of D = day t
          \<and> int_of H = hour t \<and> int_of Mi = minute t))
   \<and> (strptime lit = Some t \<longrightarrow> valid_date (year t) (month t) (day t) \<and> length (isoformat t) = 19)
   \<and> strptime ''99/99/9999 1:00 PM'' = None
   \<and> map timestamp (fst (parse_discord_data scenario_C)) = [''99/99/9999 1:00 PM'']"
proof (intro conjI impI)
  assume i: "i < length (finditer message_pattern doc)"
  show "is_stamp (group (finditer message_pattern doc ! i) 1)"
    by (rule finditer_message_stamp[OF i])
  show "timestamp (fst (parse_discord_data doc) ! i) =
        (case strptime (group (finditer message_pattern doc ! i) 1) of
           Some t \<Rightarrow> isoformat t
         | None \<Rightarrow> group (finditer message_pattern doc ! i) 1)"
    using i by (simp add: parse_records)
next
  assume "is_stamp lit"
  then show "\<exists>mo d y h mi ap. digits mo \<and> digits d \<and> digits y \<and> digits h \<and> digits mi \<and> ap \<in> set ''AP''
           \<and> lit = mo @ ''/'' @ d @ ''/'' @ y @ '' '' @ h @ '':'' @ mi @ '' '' @ [ap] @ ''M''"
    by (rule is_stamp_form)
next
  assume "digits mo \<and> digits d \<and> digits y \<and> digits h \<and> digits mi \<and> ap \<in> set ''AP''"
  then show "strptime (mo @ ''/'' @ d @ ''/'' @ y @ '' '' @ h @ '':'' @ mi @ '' '' @ [ap] @ ''M'')
          = read_fields mo d y h mi ap"
    by (intro strptime_fields) simp_all
next
  assume r: "read_fields mo d y h mi ap = Some t"
  note b = read_fields_bounds[OF r]
  show "hour t < 24" by (rule b(4))
  show "minute t < 60" by (rule b(5))
  have "hour t < 100" "minute t < 100" using b(4,5) by simp_all
  then show "\<exists>Y Mo D H Mi.
            isoformat t = Y @ ''-'' @ Mo @ ''-'' @ D @ ''T'' @ H @ '':'' @ Mi @ '':00''
          \<and> length Y = 4 \<and> length Mo = 2 \<and> length D = 2 \<and> length H = 2 \<and> length Mi = 2
          \<and> digits Y \<and> digits Mo \<and> digits D \<and> digits H \<and> digits Mi
          \<and> int_of Y = year t \<and> int_of Mo = month t \<and> int_of D = day t
          \<and> int_of H = hour t \<and> int_of Mi = minute t"
    by (intro iso_readback b(1,2,3))
next
  assume s: "strptime lit = Some t"
  show "valid_date (year t) (month t) (day t)" by (rule strptime_valid(1)[OF s])
  show "length (isoformat t) = 19" by (rule strptime_valid(2)[OF s])
next
  show "strptime ''99/99/9999 1:00 PM'' = None" by code_simp
  show "map timestamp (fst (parse_discord_data scenario_C)) = [''99/99/9999 1:00 PM'']" by code_simp
qed

theorem timestamp_normalised_or_verbatim_witness:
  "0 < length (finditer message_pattern scenario_A)
   \<and> group (finditer message_pattern scenario_A ! 0) 1 = ''1/2/2023 3:04 PM''
   \<and> is_stamp ''1/2/2023 3:04 PM''
   \<and> timestamp (fst (parse_discord_data scenario_A) ! 0) = ''2023-01-02T15:04:00''
   \<and> digits ''1'' \<and> digits ''2'' \<and> digits ''2023'' \<and> digits ''3'' \<and> digits ''04''
   \<and> CHR ''P'' \<in> set ''AP''
   \<and> strptime ''1/2/2023 3:04 PM'' = Some \<lparr>year = 2023, month = 1, day = 2, hour = 15, minute = 4\<rparr>
   \<and> read_fields ''1'' ''2'' ''2023'' ''3'' ''04'' CHR ''P''
        = Some \<lparr>year = 2023, month = 1, day = 2, hour = 15, minute = 4\<rparr>
   \<and> isoformat \<lparr>year = 2023, month = 1, day = 2, hour = 15, minute = 4\<rparr> = ''2023-01-02T15:04:00''
   \<and> valid_date 2023 1 2"
proof -
  have h: "0 < length (finditer message_pattern scenario_A)" by code_simp
  have g: "group (finditer message_pattern scenario_A ! 0) 1 = ''1/2/2023 3:04 PM''" by code_simp
  have dg: "digits ''1''" "digits ''2''" "digits ''2023''" "digits ''3''" "digits ''04''"
    by (simp_all add: digits_def isdigit_def)
  have r: "read_fields ''1'' ''2'' ''2023'' ''3'' ''04'' CHR ''P''
        = Some \<lparr>year = 2023, month = 1, day = 2, hour = 15, minute = 4\<rparr>" by code_simp
  have i: "isoformat \<lparr>year = 2023, month = 1, day = 2, hour = 15, minute = 4\<rparr> = ''2023-01-02T15:04:00''"
    by code_simp
  note t = timestamp_normalised_or_verbatim[of 0 scenario_A "''1/2/2023 3:04 PM''"
      "''1''" "''2''" "''2023''" "''3''" "''04''" "CHR ''P''"
      "\<lparr>year = 2023, month = 1, day = 2, hour = 15, minute = 4\<rparr>"]
  from t h g have 1: "is_stamp ''1/2/2023 3:04 PM''" by simp
  from t dg r have 2: "strptime ''1/2/2023 3:04 PM''
      = Some \<lparr>year = 2023, month = 1, day = 2, hour = 15, minute = 4\<rparr>" by simp
  from t h g 2 i have 3: "timestamp (fst (parse_discord_data scenario_A) ! 0) = ''2023-01-02T15:04:00''"
    by simp
  from t 2 have 4: "valid_date 2023 1 2" by simp
  show ?thesis using h g 1 3 dg 2 r i 4 by simp
qed
section \<open>Attachments\<close>

text \<open>
  C2. Each address line under an \<open>{Attachments}\<close> marker should become one entry of
  the attachments. With one address (scenario B) it does, and the address is absent from
  the text. With two addresses under the marker (\<open>two_urls\<close>) the pattern captures
  the first line only, while the cleaning removes the whole section: the second address
  is in neither the attachments nor the text, and the record equals that of scenario B.
\<close>

theorem second_url_lost:
  "fst (parse_discord_data two_urls) =
     [\<lparr>timestamp = ''2023-01-02T15:04:00'', author = ''Alice'', msg_text = ''see'',
       metadata = \<lparr>attachments = [''https://example.com/a.png''], embeds = [], reactions = [],
                    channel = None, guild = None\<rparr>\<rparr>]
   \<and> fst (parse_discord_data scenario_B) = fst (parse_discord_data two_urls)"
  by code_simp

section \<open>The chunks of the segmenter\<close>

text \<open>
  C8 says that a chunk begins only at a line of the delimiter shape and extends to the
  next such line. The pattern has no anchor: in \<open>midline\<close> the first chunk begins
  after the character \<open>x\<close>, it ends at a bracketed timestamp inside a body line, and
  the second chunk begins there, after a space.
\<close>

theorem chunk_begins_midline_counterexample:
  "finditer message_pattern midline =
     [\<lparr>m_start = 1, m_end = 27, m_groups = [''1/2/2023 3:04 PM'', ''Bob'', ''hi '']\<rparr>,
      \<lparr>m_start = 27, m_end = 55, m_groups = [''1/2/2023 3:05 PM'', ''and more'', []]\<rparr>]
   \<and> midline ! 0 = CHR ''x'' \<and> midline ! 26 = CHR '' ''"
  by code_simp

text \<open>
  C8, amended. The segmenter gives a finite sequence of chunks, from left to right and
  without overlap. Each begins at a position, at the beginning of a line or not, where
  the text reads \<open>[timestamp] author\<close> and a newline, the author being non-empty and
  without newline; its groups are the timestamp, the author and the body; the body
  extends up to, and not including, the first bracketed timestamp that begins after
  that newline, wherever in a line it occurs, or to the end of the document. A bracketed
  timestamp inside the author text ends nothing. Every position where the text reads
  \<open>[timestamp] author\<close> and a newline lies in a chunk: it begins one unless a chunk
  that began before it runs over it.
\<close>

theorem segmenter_chunks:
  "(m \<in> set (finditer message_pattern doc) \<longrightarrow>
     (\<exists>ts a body rest.
        drop (m_start m) doc = ''['' @ ts @ ''] '' @ a @ ''\<newline>'' @ body @ rest
      \<and> m_groups m = [ts, a, body] \<and> m_end m + length rest = length doc
      \<and> is_stamp ts \<and> a \<noteq> [] \<and> CHR ''\<newline>'' \<notin> set a
      \<and> (rest = [] \<or> bracket_at rest)
      \<and> (\<forall>k<length body. \<not> bracket_at (drop k (body @ rest)))))
   \<and> in_order 0 (finditer message_pattern doc)
   \<and> (delim_at (drop p doc) \<longrightarrow>
        (\<exists>m'\<in>set (finditer message_pattern doc). m_start m' \<le> p \<and> p < m_end m'))"
proof (intro conjI impI)
  assume m: "m \<in> set (finditer message_pattern doc)"
  from finditer_message_match[OF m] obtain n where
    n: "match_at message_pattern (drop (m_start m) doc) = Some (n, m_groups m)"
       "m_end m = m_start m + n" "m_end m \<le> length doc" by blast
  from message_chunk[OF n(1)] obtain ts a body rest where
    c: "drop (m_start m) doc = ''['' @ ts @ ''] '' @ a @ ''\<newline>'' @ body @ rest"
       "m_groups m = [ts, a, body]" "n + length rest = length (drop (m_start m) doc)"
       "is_stamp ts" "a \<noteq> []" "CHR ''\<newline>'' \<notin> set a"
       "rest = [] \<or> bracket_at rest"
       "\<forall>k<length body. \<not> bracket_at (drop k (body @ rest))" by blast
  have "m_end m + length rest = length doc" using c(3) n(2,3) by simp
  then show "\<exists>ts a body rest.
        drop (m_start m) doc = ''['' @ ts @ ''] '' @ a @ ''\<newline>'' @ body @ rest
      \<and> m_groups m = [ts, a, body] \<and> m_end m + length rest = length doc
      \<and> is_stamp ts \<and> a \<noteq> [] \<and> CHR ''\<newline>'' \<notin> set a
      \<and> (rest = [] \<or> bracket_at rest)
      \<and> (\<forall>k<length body. \<not> bracket_at (drop k (body @ rest)))" using c by blast
next
  show "in_order 0 (finditer message_pattern doc)" by (rule finditer_message_in_order)
next
  assume "delim_at (drop p doc)"
  then have "match_at message_pattern (drop p doc) \<noteq> None" by (simp add: delim_at_match)
  then show "\<exists>m'\<in>set (finditer message_pattern doc). m_start m' \<le> p \<and> p < m_end m'"
    by (rule finditer_message_cover)
qed

theorem segmenter_chunks_witness:
  "\<lparr>m_start = 1, m_end = 27, m_groups = [''1/2/2023 3:04 PM'', ''Bob'', ''hi '']\<rparr>
      \<in> set (finditer message_pattern midline)
   \<and> (\<exists>ts a body rest.
      drop 1 midline = ''['' @ ts @ ''] '' @ a @ ''\<newline>'' @ body @ rest
    \<and> [''1/2/2023 3:04 PM'', ''Bob'', ''hi ''] = [ts, a, body] \<and> 27 + length rest = length midline
    \<and> is_stamp ts \<and> a \<noteq> [] \<and> CHR ''\<newline>'' \<notin> set a
    \<and> (rest = [] \<or> bracket_at rest)
    \<and> (\<forall>k<length body. \<not> bracket_at (drop k (body @ rest))))
   \<and> delim_at (drop 27 midline)
   \<and> (\<exists>m'\<in>set (finditer message_pattern midline). m_start m' \<le> 27 \<and> 27 < m_end m')"
proof -
  have h: "\<lparr>m_start = 1, m_end = 27, m_groups = [''1/2/2023 3:04 PM'', ''Bob'', ''hi '']\<rparr>
      \<in> set (finditer message_pattern midline)" by code_simp
  have d: "delim_at (drop 27 midline)" by code_simp
  from segmenter_chunks[of "\<lparr>m_start = 1, m_end = 27, m_groups = [''1/2/2023 3:04 PM'', ''Bob'', ''hi '']\<rparr>" midline 27]
  show ?thesis using h d by simp
qed
section \<open>A final delimiter line without newline\<close>

text \<open>
  C10. When the file ends with a delimiter line \<open>[timestamp] author\<close> that no newline
  follows, no record is produced for it: every chunk of the segmenter ends before that
  line begins, the records are those chunks, and a file that consists of such a line
  alone gives no record.
\<close>

theorem unterminated_final_delimiter_dropped:
  assumes "is_stamp ts" "a \<noteq> []" "CHR ''\<newline>'' \<notin> set a"
  shows "(\<forall>m\<in>set (finditer message_pattern (pre @ ''['' @ ts @ ''] '' @ a)). m_end m \<le> length pre)
    \<and> length (fst (parse_discord_data (pre @ ''['' @ ts @ ''] '' @ a)))
        = length (finditer message_pattern (pre @ ''['' @ ts @ ''] '' @ a))
    \<and> fst (parse_discord_data (''['' @ ts @ ''] '' @ a)) = []"
proof -
  let ?l = "''['' @ ts @ ''] '' @ a"
  have nl: "CHR ''\<newline>'' \<notin> set ?l"
    using assms(3) stamp_rest_split[of ts "[]"] assms(1) by (auto simp: is_stamp_def)
  have br: "bracket_at ?l" by (rule bracket_at_delim[OF assms(1)])
  have 1: "\<forall>m\<in>set (finditer message_pattern (pre @ ?l)). m_end m \<le> length pre" for pre
    using unterminated_aux[OF nl br] by blast
  have "finditer message_pattern ?l = []"
  proof (cases "finditer message_pattern ?l")
    case (Cons m mts)
    then have "m \<in> set (finditer message_pattern ([] @ ?l))" by simp
    from 1[rule_format, OF this] have "m_end m = 0" by simp
    moreover from finditer_message_in_order[of ?l] Cons have "m_start m < m_end m" by simp
    ultimately show ?thesis by simp
  qed simp
  then have 3: "fst (parse_discord_data ?l) = []" by (simp add: parse_records)
  show ?thesis using 1 3 by (simp add: parse_records)
qed

theorem unterminated_final_delimiter_dropped_witness:
  "is_stamp ''1/2/2023 3:05 PM'' \<and> ''Bob'' \<noteq> [] \<and> CHR ''\<newline>'' \<notin> set ''Bob''
   \<and> no_newline_end = ''[1/2/2023 3:04 PM] Alice\<newline>hello\<newline>'' @ ''['' @ ''1/2/2023 3:05 PM'' @ ''] '' @ ''Bob''
   \<and> list_all (\<lambda>m. m_end m \<le> length ''[1/2/2023 3:04 PM] Alice\<newline>hello\<newline>'')
         (finditer message_pattern no_newline_end)
   \<and> map author (fst (parse_discord_data no_newline_end)) = [''Alice'']"
proof -
  have h: "is_stamp ''1/2/2023 3:05 PM''" by code_simp
  have d: "no_newline_end = ''[1/2/2023 3:04 PM] Alice\<newline>hello\<newline>'' @ ''['' @ ''1/2/2023 3:05 PM'' @ ''] '' @ ''Bob''"
    by (simp add: no_newline_end_def)
  have r: "map author (fst (parse_discord_data no_newline_end)) = [''Alice'']" by code_simp
  from unterminated_final_delimiter_dropped[OF h, of "''Bob''" "''[1/2/2023 3:04 PM] Alice\<newline>hello\<newline>''"]
  show ?thesis using h r unfolding d[symmetric] list_all_iff by simp
qed

section \<open>The number of records\<close>

text \<open>
  C5 says that the number of records is the number of delimiter lines. A body line may
  contain a bracketed timestamp: \<open>quoted_stamp\<close> has the banner and one delimiter
  line, and its second body line quotes a timestamp followed by a name; the parser gives
  two records. \<open>midline\<close> has no delimiter line and gives two records.
\<close>

theorem records_count_counterexample:
  "delimiter_lines quoted_stamp = 1
   \<and> map author (fst (parse_discord_data quoted_stamp)) = [''Alice'', ''Bob'']
   \<and> delimiter_lines midline = 0
   \<and> length (fst (parse_discord_data midline)) = 2"
  by code_simp

text \<open>
  C5, amended. For every document in which a bracketed timestamp occurs only at the
  beginning of a line, followed there by a space, a non-empty author and a newline, the
  number of records is the number of delimiter lines. In particular such a document
  with no delimiter line gives the empty record sequence and an empty output: the array
  writer writes \<^verbatim>\<open>[]\<close> and the line writer writes nothing. No error is raised: after
  the file is read, the parse has no statement that can raise on such a document, and
  it is a total function here.
\<close>

theorem records_count_delimiter_lines:
  assumes "well_formed doc"
  shows "length (fst (parse_discord_data doc)) = delimiter_lines doc
     \<and> (delimiter_lines doc = 0 \<longrightarrow>
          fst (parse_discord_data doc) = []
        \<and> save_for_label_studio (fst (parse_discord_data doc)) = ''[]''
        \<and> save_to_jsonl (fst (parse_discord_data doc)) = [])"
proof -
  have "length (finditer message_pattern doc) = count_brackets doc"
    using assms finditer_count_brackets unfolding well_formed_def by blast
  also have "\<dots> = count_lines True doc"
    using assms count_lines_wf unfolding well_formed_def by simp
  also have "\<dots> = delimiter_lines doc" by (simp add: delimiter_lines_count)
  finally have n: "length (fst (parse_discord_data doc)) = delimiter_lines doc"
    by (simp add: parse_records)
  have e: "save_for_label_studio [] = ''[]''" "save_to_jsonl [] = []"
    by (simp_all add: save_for_label_studio_def save_to_jsonl_def indent_list_def)
  show ?thesis
  proof (intro conjI impI)
    show "length (fst (parse_discord_data doc)) = delimiter_lines doc" by (rule n)
  next
    assume "delimiter_lines doc = 0"
    with n show z: "fst (parse_discord_data doc) = []" by simp
    show "save_for_label_studio (fst (parse_discord_data doc)) = ''[]''" by (simp only: z e)
    show "save_to_jsonl (fst (parse_discord_data doc)) = []" by (simp only: z e)
  qed
qed

theorem records_count_delimiter_lines_witness:
  "well_formed two_embeds \<and> length (fst (parse_discord_data two_embeds)) = 2
   \<and> delimiter_lines two_embeds = 2
   \<and> well_formed no_messages \<and> delimiter_lines no_messages = 0
   \<and> fst (parse_discord_data no_messages) = []
   \<and> save_for_label_studio (fst (parse_discord_data no_messages)) = ''[]''
   \<and> save_to_jsonl (fst (parse_discord_data no_messages)) = []"
proof -
  have h: "well_formed two_embeds" by code_simp
  have d: "delimiter_lines two_embeds = 2" by code_simp
  have h0: "well_formed no_messages" by code_simp
  have d0: "delimiter_lines no_messages = 0" by code_simp
  from records_count_delimiter_lines[OF h] d
  have 1: "length (fst (parse_discord_data two_embeds)) = 2" by simp
  from records_count_delimiter_lines[OF h0] d0
  have 2: "fst (parse_discord_data no_messages) = []
   \<and> save_for_label_studio (fst (parse_discord_data no_messages)) = ''[]''
   \<and> save_to_jsonl (fst (parse_discord_data no_messages)) = []" by blast
  show ?thesis using h d h0 d0 1 2 by blast
qed
section \<open>The header\<close>

text \<open>
  C9 says that, when the banner is found, each field is set to the captured value. The
  channel is not: in scenario A the pattern captures \<open>General / chat\<close> and the field
  is \<open>chat\<close>.
\<close>

theorem channel_not_captured_value_counterexample:
  "map_option m_groups (search header_pattern scenario_A)
      = Some [''TestGuild'', ''General / chat'', ''none'']
   \<and> md_channel (extract_header scenario_A) = Some ''chat''"
  by code_simp

text \<open>
  C9, amended. When no position of the document begins a banner, the three fields are
  \<^verbatim>\<open>None\<close> and nothing is raised. When \<open>k\<close> is the first position that begins a
  banner, the guild and the topic are the values captured there and the channel is the
  last piece of the captured value split at \<open>' / '\<close>. A text that reads as a separator
  of two or more \<open>=\<close>, the three lines and a closing separator is a banner with these
  values.
\<close>

theorem header_fields:
  "((\<forall>k\<le>length doc0. banner_parts (drop k doc0) = None) \<longrightarrow> extract_header doc0 = no_metadata)
   \<and> (k \<le> length doc \<and> banner_parts (drop k doc) = Some (g, c, t, after)
        \<and> (\<forall>j<k. banner_parts (drop j doc) = None) \<longrightarrow>
       extract_header doc = \<lparr>md_guild = Some g, md_channel = Some (last (split '' / '' c)),
                               md_topic = Some t\<rparr>)
   \<and> (2 \<le> n \<and> CHR ''\<newline>'' \<notin> set g' \<and> CHR ''\<newline>'' \<notin> set c' \<and> CHR ''\<newline>'' \<notin> set t' \<longrightarrow>
       banner_parts (replicate n CHR ''='' @ ''\<newline>Guild: '' @ g' @ ''\<newline>Channel: '' @ c'
            @ ''\<newline>Topic: '' @ t' @ ''\<newline>=='' @ rest)
         = Some (g', c', t', dropWhile (\<lambda>c. c = CHR ''='') rest))"
proof (intro conjI impI)
  assume "\<forall>k\<le>length doc0. banner_parts (drop k doc0) = None"
  then have "\<forall>k\<le>length doc0. match_at header_pattern (drop k doc0) = None"
    by (simp add: match_at_header)
  then have "search header_pattern doc0 = None" by (simp add: search_None_iff)
  then show "extract_header doc0 = no_metadata"
    by (simp add: extract_header_def no_metadata_def)
next
  assume a: "k \<le> length doc \<and> banner_parts (drop k doc) = Some (g, c, t, after)
        \<and> (\<forall>j<k. banner_parts (drop j doc) = None)"
  then have "match_at header_pattern (drop k doc) = Some (length (drop k doc) - length after, [g, c, t])"
    by (simp add: match_at_header)
  moreover have "\<forall>j<k. match_at header_pattern (drop j doc) = None"
    using a by (simp add: match_at_header)
  ultimately have "search header_pattern doc =
      Some \<lparr>m_start = k, m_end = k + (length (drop k doc) - length after), m_groups = [g, c, t]\<rparr>"
    using a by (intro search_first) auto
  then show "extract_header doc = \<lparr>md_guild = Some g, md_channel = Some (last (split '' / '' c)),
                               md_topic = Some t\<rparr>"
    by (simp add: extract_header_def group_def)
next
  assume "2 \<le> n \<and> CHR ''\<newline>'' \<notin> set g' \<and> CHR ''\<newline>'' \<notin> set c' \<and> CHR ''\<newline>'' \<notin> set t'"
  then show "banner_parts (replicate n CHR ''='' @ ''\<newline>Guild: '' @ g' @ ''\<newline>Channel: '' @ c'
            @ ''\<newline>Topic: '' @ t' @ ''\<newline>=='' @ rest)
         = Some (g', c', t', dropWhile (\<lambda>c. c = CHR ''='') rest)"
    using banner_partsI by blast
qed

theorem header_fields_witness:
  "banner_parts (drop 0 scenario_A) =
      Some (''TestGuild'', ''General / chat'', ''none'', ''\<newline>[1/2/2023 3:04 PM] Alice\<newline>hello world'')
   \<and> extract_header scenario_A =
       \<lparr>md_guild = Some ''TestGuild'', md_channel = Some ''chat'', md_topic = Some ''none''\<rparr>
   \<and> extract_header [] = no_metadata
   \<and> banner_parts (replicate 2 CHR ''='' @ ''\<newline>Guild: '' @ ''g'' @ ''\<newline>Channel: '' @ ''c''
            @ ''\<newline>Topic: '' @ ''t'' @ ''\<newline>=='' @ ''='')
         = Some (''g'', ''c'', ''t'', [])"
proof -
  have b: "banner_parts (drop 0 scenario_A) =
      Some (''TestGuild'', ''General / chat'', ''none'', ''\<newline>[1/2/2023 3:04 PM] Alice\<newline>hello world'')"
    by code_simp
  have l: "last (split '' / '' ''General / chat'') = ''chat''" by code_simp
  have e: "banner_parts [] = None" by code_simp
  from header_fields[of "[]" 0 scenario_A "''TestGuild''" "''General / chat''" "''none''"
      "''\<newline>[1/2/2023 3:04 PM] Alice\<newline>hello world''" 2 "''g''" "''c''" "''t''" "''=''"]
  show ?thesis using b l e by simp
qed


section \<open>Embeds and reactions\<close>



section \<open>The markers and the text\<close>

text \<open>
  C4. For every document and every record produced from it, the text of the record
  contains none of the markers \<open>{Attachments}\<close>, \<open>{Embed}\<close> and
  \<open>{Reactions}\<close> as a substring. Each substitution removes every occurrence of its
  marker, and what it leaves after a removed section begins with a newline, so that no
  substitution puts a marker together; the lines of the text are lines of what the
  substitutions leave.
\<close>

theorem text_has_no_marker:
  "\<forall>r\<in>set (fst (parse_discord_data doc)).
     \<not> sublist ''{Attachments}'' (msg_text r)
     \<and> \<not> sublist ''{Embed}'' (msg_text r)
     \<and> \<not> sublist ''{Reactions}'' (msg_text r)"
proof
  fix r
  assume "r \<in> set (fst (parse_discord_data doc))"
  then obtain m where "msg_text r = clean (group m 3)"
    unfolding parse_records by auto
  then show "\<not> sublist ''{Attachments}'' (msg_text r)
     \<and> \<not> sublist ''{Embed}'' (msg_text r)
     \<and> \<not> sublist ''{Reactions}'' (msg_text r)"
    by (simp add: clean_no_marker)
qed

theorem text_has_no_marker_witness:
  "fst (parse_discord_data all_markers) =
     [\<lparr>timestamp = ''2023-01-02T15:04:00'', author = ''Alice'', msg_text = ''see\<newline>more'',
       metadata = \<lparr>attachments = [''https://example.com/a.png''],
                    embeds = [''inline'', ''{Reactions}'', ''ok''],
                    reactions = [''ok''], channel = None, guild = None\<rparr>\<rparr>]
   \<and> \<not> sublist ''{Attachments}'' ''see\<newline>more''
   \<and> \<not> sublist ''{Embed}'' ''see\<newline>more''
   \<and> \<not> sublist ''{Reactions}'' ''see\<newline>more''"
  using text_has_no_marker[of all_markers] all_markers_records by simp
end
